theory Spec2Isabelle
  imports Complex_Main "HOL-Library.Log_Nat"
begin

section \<open>Strings and POSIX path manipulation\<close>

text \<open>
  The program is \<^verbatim>\<open>src/remove_old_files.py\<close>. It manipulates path strings through
  Python's \<^verbatim>\<open>os.path\<close> (the POSIX flavour) and reaches the file system through
  \<^verbatim>\<open>os\<close>. This section models the string functions the program calls; the next one
  models the file system. A character of a model string is a code point below 256;
  text with other code points is outside the model.
\<close>

definition startswith :: "string \<Rightarrow> string \<Rightarrow> bool" where
  \<comment> \<open>\<^verbatim>\<open>s.startswith(pre)\<close>\<close>
  "startswith s pre = (take (length pre) s = pre)"

definition endswith :: "string \<Rightarrow> string \<Rightarrow> bool" where
  \<comment> \<open>\<^verbatim>\<open>s.endswith(suf)\<close>\<close>
  "endswith s suf = (length suf \<le> length s \<and> drop (length s - length suf) s = suf)"

fun split_sep :: "string \<Rightarrow> string list" where
  \<comment> \<open>\<^verbatim>\<open>s.split('/')\<close>: never empty, \<^verbatim>\<open>''.split('/') == ['']\<close>\<close>
  "split_sep [] = [[]]"
| "split_sep (c # cs) =
     (if c = CHR ''/'' then [] # split_sep cs
      else (case split_sep cs of [] \<Rightarrow> [[c]] | w # ws \<Rightarrow> (c # w) # ws))"

fun join_sep :: "string list \<Rightarrow> string" where
  \<comment> \<open>\<^verbatim>\<open>'/'.join(comps)\<close>\<close>
  "join_sep [] = []"
| "join_sep [w] = w"
| "join_sep (w # ws) = w @ ''/'' @ join_sep ws"

definition join :: "string \<Rightarrow> string \<Rightarrow> string" where
  \<comment> \<open>\<^verbatim>\<open>os.path.join(a, b)\<close>\<close>
  "join a b =
     (if startswith b ''/'' then b
      else if a = [] \<or> endswith a ''/'' then a @ b
      else a @ ''/'' @ b)"

definition norm_step :: "nat \<Rightarrow> string list \<Rightarrow> string \<Rightarrow> string list" where
  \<comment> \<open>one round of the loop of \<^verbatim>\<open>posixpath.normpath\<close> over the components\<close>
  "norm_step slashes new_comps part =
     (if part = [] \<or> part = ''.'' then new_comps
      else if part \<noteq> ''..'' \<or> (slashes = 0 \<and> new_comps = [])
              \<or> (new_comps \<noteq> [] \<and> last new_comps = ''..'')
        then new_comps @ [part]
      else if new_comps \<noteq> [] then butlast new_comps
      else new_comps)"

definition initial_slashes :: "string \<Rightarrow> nat" where
  \<comment> \<open>POSIX keeps exactly two leading slashes and folds three or more into one\<close>
  "initial_slashes path =
     (if \<not> startswith path ''/'' then 0
      else if startswith path ''//'' \<and> \<not> startswith path ''///'' then 2
      else 1)"

definition norm_comps :: "string \<Rightarrow> string list" where
  "norm_comps path = foldl (norm_step (initial_slashes path)) [] (split_sep path)"

definition normpath :: "string \<Rightarrow> string" where
  \<comment> \<open>\<^verbatim>\<open>os.path.normpath(path)\<close>\<close>
  "normpath path =
     (if path = [] then ''.''
      else let p = replicate (initial_slashes path) CHR ''/'' @ join_sep (norm_comps path)
           in if p = [] then ''.'' else p)"

definition getcwd :: "string list \<Rightarrow> string" where
  \<comment> \<open>\<^verbatim>\<open>os.getcwd()\<close> for a working directory given by its components\<close>
  "getcwd cwd = ''/'' @ join_sep cwd"

definition abspath :: "string list \<Rightarrow> string \<Rightarrow> string" where
  \<comment> \<open>\<^verbatim>\<open>os.path.abspath(path)\<close>\<close>
  "abspath cwd path =
     (if startswith path ''/'' then normpath path else normpath (join (getcwd cwd) path))"

fun commonprefix :: "string list \<Rightarrow> string list \<Rightarrow> string list" where
  \<comment> \<open>\<^verbatim>\<open>os.path.commonprefix([xs, ys])\<close> on two lists of components\<close>
  "commonprefix (x # xs) (y # ys) = (if x = y then x # commonprefix xs ys else [])"
| "commonprefix _ _ = []"

definition relpath :: "string list \<Rightarrow> string \<Rightarrow> string \<Rightarrow> string" where
  \<comment> \<open>\<^verbatim>\<open>os.path.relpath(path, start)\<close>, for a non-empty \<open>path\<close>\<close>
  "relpath cwd path start =
     (let start_list = filter (\<lambda>x. x \<noteq> []) (split_sep (abspath cwd start));
          path_list = filter (\<lambda>x. x \<noteq> []) (split_sep (abspath cwd path));
          i = length (commonprefix start_list path_list);
          rel_list = replicate (length start_list - i) ''..'' @ drop i path_list
      in if rel_list = [] then ''.'' else foldl join (hd rel_list) (tl rel_list))"

definition is_space :: "char \<Rightarrow> bool" where
  \<comment> \<open>the code points below 256 that \<^verbatim>\<open>str.isspace\<close> accepts\<close>
  "is_space c =
     (c \<in> set [CHR '' '', CHR 0x09, CHR 0x0A, CHR 0x0B, CHR 0x0C, CHR 0x0D,
                CHR 0x1C, CHR 0x1D, CHR 0x1E, CHR 0x1F, CHR 0x85, CHR 0xA0])"

definition strip :: "string \<Rightarrow> string" where
  \<comment> \<open>\<^verbatim>\<open>s.strip()\<close>\<close>
  "strip s = rev (dropWhile is_space (rev (dropWhile is_space s)))"

definition digit_val :: "char \<Rightarrow> int option" where
  "digit_val c =
     (let n = (of_char c :: int)
      in if 48 \<le> n \<and> n \<le> 57 then Some (n - 48) else None)"

fun digits_val :: "int \<Rightarrow> bool \<Rightarrow> string \<Rightarrow> int option" where
  \<comment> \<open>decimal digits, with single underscores between digits; the flag says that the
      character before was a digit\<close>
  "digits_val acc after_digit [] = (if after_digit then Some acc else None)"
| "digits_val acc after_digit (c # cs) =
     (if c = CHR ''_'' then (if after_digit then digits_val acc False cs else None)
      else (case digit_val c of
              None \<Rightarrow> None
            | Some d \<Rightarrow> digits_val (10 * acc + d) True cs))"

definition int_max_str_digits :: nat where
  \<comment> \<open>the default of \<^verbatim>\<open>sys.get_int_max_str_digits()\<close>\<close>
  "int_max_str_digits = 4300"

definition py_int :: "string \<Rightarrow> int option" where
  \<comment> \<open>\<^verbatim>\<open>int(s)\<close> on a stripped string: an optional sign, then decimal digits, at most
      \<open>int_max_str_digits\<close> of them; \<open>None\<close> is \<^verbatim>\<open>ValueError\<close>. Below 256 the decimal
      digits are the ASCII ones.\<close>
  "py_int s =
     (let body = (case s of
                    [] \<Rightarrow> []
                  | c # cs \<Rightarrow> if c = CHR ''-'' \<or> c = CHR ''+'' then cs else s)
      in if int_max_str_digits < length (filter (\<lambda>c. c \<noteq> CHR ''_'') body) then None
         else (case s of
                 [] \<Rightarrow> None
               | c # cs \<Rightarrow>
                   if c = CHR ''-'' then map_option uminus (digits_val 0 False cs)
                   else if c = CHR ''+'' then digits_val 0 False cs
                   else digits_val 0 False s))"

subsection \<open>Integers as floats\<close>

text \<open>
  A float of the program is a real number. Converting an integer is modelled as Python
  does it: exact up to 53 bits, rounded to 53 bits (ties to even) above, and
  \<^verbatim>\<open>OverflowError\<close> when the rounded value does not fit a double. Arithmetic and
  comparisons of floats that are in range are those of the real numbers: the rounding
  of a difference is not modelled.
\<close>

datatype py_error =
    FileNotFoundError | NotADirectoryError | IsADirectoryError | PermissionError
  | OverflowError

definition float_value :: "int \<Rightarrow> real" where
  \<comment> \<open>the double nearest to an integer\<close>
  "float_value n =
     (if \<bar>n\<bar> < 2 ^ 53 then of_int n
      else let a = \<bar>n\<bar>;
               k = floorlog 2 (nat a) - 53;
               q = a div 2 ^ k;
               r = a mod 2 ^ k;
               q' = (if 2 ^ k < 2 * r \<or> (2 * r = 2 ^ k \<and> odd q) then q + 1 else q)
           in of_int (sgn n * q' * 2 ^ k))"

definition py_float :: "int \<Rightarrow> py_error + real" where
  \<comment> \<open>\<^verbatim>\<open>float(n)\<close>, and the conversion of the integer operand of a float operation\<close>
  "py_float n =
     (if \<bar>float_value n\<bar> < 2 ^ 1024 then Inr (float_value n) else Inl OverflowError)"

section \<open>The file system and the \<^verbatim>\<open>os\<close> calls\<close>

text \<open>
  The file system is a tree. A directory lists its entries in the order the operating
  system enumerates them and carries the three permissions that decide what a process
  may do with it: read (list the names), write (create and unlink entries) and search
  (reach the entries). \<open>Special\<close> stands for every entry that is neither a regular file
  nor a directory (a FIFO, a socket, a device). There are no symbolic links, and nothing
  but the program changes the tree while it runs. Unlinking an entry also stamps its
  directory; the program reads the time stamps of files only, and the model leaves
  those of the directory as they are.
\<close>

record stat_result =
  st_mtime :: real
  st_atime :: real
  st_ctime :: real

record dir_mode =
  readable :: bool
  writable :: bool
  searchable :: bool

datatype node =
    File stat_result
  | Special stat_result
  | Dir stat_result dir_mode "(string \<times> node) list"

fun node_stat :: "node \<Rightarrow> stat_result" where
  "node_stat (File st) = st"
| "node_stat (Special st) = st"
| "node_stat (Dir st m es) = st"

fun is_dir :: "node \<Rightarrow> bool" where
  "is_dir (Dir st m es) = True"
| "is_dir _ = False"

fun lookup :: "node \<Rightarrow> string list \<Rightarrow> node option" where
  \<comment> \<open>the node at a location, a list of entry names from the root of the tree\<close>
  "lookup n [] = Some n"
| "lookup (Dir st m es) (c # cs) =
     (case map_of es c of None \<Rightarrow> None | Some n \<Rightarrow> lookup n cs)"
| "lookup _ (c # cs) = None"

fun resolve :: "node \<Rightarrow> string list \<Rightarrow> string list \<Rightarrow> py_error + string list" where
  \<comment> \<open>the kernel's walk along the components of a path, from the location \<open>loc\<close>: a
      name, \<^verbatim>\<open>.\<close> and \<^verbatim>\<open>..\<close> are taken from a directory that the process may search; an
      empty component (a doubled or a trailing separator) asks for a directory only\<close>
  "resolve fs loc [] = Inr loc"
| "resolve fs loc (c # cs) =
     (case lookup fs loc of
        None \<Rightarrow> Inl FileNotFoundError
      | Some (Dir st m es) \<Rightarrow>
          if c = [] then resolve fs loc cs
          else if \<not> searchable m then Inl PermissionError
          else if c = ''.'' then resolve fs loc cs
          else if c = ''..'' then resolve fs (butlast loc) cs
          else resolve fs (loc @ [c]) cs
      | Some _ \<Rightarrow> Inl NotADirectoryError)"

fun delete_at :: "string list \<Rightarrow> node \<Rightarrow> node" where
  \<comment> \<open>the tree without the entry at a location\<close>
  "delete_at [] n = n"
| "delete_at [c] (Dir st m es) = Dir st m (filter (\<lambda>e. fst e \<noteq> c) es)"
| "delete_at (c # cs) (Dir st m es) =
     Dir st m (map (\<lambda>e. if fst e = c then (fst e, delete_at cs (snd e)) else e) es)"
| "delete_at (c # cs) n = n"

datatype proc_result = Raised | Completed int string

text \<open>
  The world the program runs in: the tree, the working directory of the process (a
  location) and the answer of \<^verbatim>\<open>git log -1 --format=%ct -- path\<close> for each path:
  \<open>Raised\<close> when \<^verbatim>\<open>subprocess.run\<close> raises (no \<^verbatim>\<open>git\<close> executable), otherwise the
  return code and the standard output.
\<close>

record world =
  fs_root :: node
  cwd :: "string list"
  git_log :: "string \<Rightarrow> proc_result"

definition locate :: "world \<Rightarrow> string \<Rightarrow> py_error + string list" where
  "locate w path =
     (if path = [] then Inl FileNotFoundError
      else resolve (fs_root w) (if startswith path ''/'' then [] else cwd w) (split_sep path))"

definition os_stat :: "world \<Rightarrow> string \<Rightarrow> py_error + node" where
  "os_stat w path =
     (case locate w path of
        Inl e \<Rightarrow> Inl e
      | Inr loc \<Rightarrow> (case lookup (fs_root w) loc of None \<Rightarrow> Inl FileNotFoundError | Some n \<Rightarrow> Inr n))"

definition lexists :: "world \<Rightarrow> string \<Rightarrow> bool" where
  \<comment> \<open>\<^verbatim>\<open>os.path.lexists(path)\<close>\<close>
  "lexists w path = (case os_stat w path of Inl e \<Rightarrow> False | Inr n \<Rightarrow> True)"

definition isfile :: "world \<Rightarrow> string \<Rightarrow> bool" where
  \<comment> \<open>\<^verbatim>\<open>os.path.isfile(path)\<close>: false on every error\<close>
  "isfile w path = (case os_stat w path of Inr (File st) \<Rightarrow> True | _ \<Rightarrow> False)"

definition getmtime :: "world \<Rightarrow> string \<Rightarrow> py_error + real" where
  "getmtime w path = (case os_stat w path of Inl e \<Rightarrow> Inl e | Inr n \<Rightarrow> Inr (st_mtime (node_stat n)))"

definition getatime :: "world \<Rightarrow> string \<Rightarrow> py_error + real" where
  "getatime w path = (case os_stat w path of Inl e \<Rightarrow> Inl e | Inr n \<Rightarrow> Inr (st_atime (node_stat n)))"

definition getctime :: "world \<Rightarrow> string \<Rightarrow> py_error + real" where
  "getctime w path = (case os_stat w path of Inl e \<Rightarrow> Inl e | Inr n \<Rightarrow> Inr (st_ctime (node_stat n)))"

definition listdir :: "world \<Rightarrow> string \<Rightarrow> py_error + string list" where
  \<comment> \<open>\<^verbatim>\<open>os.listdir(path)\<close>\<close>
  "listdir w path =
     (case os_stat w path of
        Inl e \<Rightarrow> Inl e
      | Inr (Dir st m es) \<Rightarrow> if readable m then Inr (map fst es) else Inl PermissionError
      | Inr _ \<Rightarrow> Inl NotADirectoryError)"

definition os_remove :: "world \<Rightarrow> string \<Rightarrow> py_error + world" where
  \<comment> \<open>\<^verbatim>\<open>os.remove(path)\<close>: unlinking needs write permission on the parent directory\<close>
  "os_remove w path =
     (case locate w path of
        Inl e \<Rightarrow> Inl e
      | Inr loc \<Rightarrow>
          (case lookup (fs_root w) loc of
             None \<Rightarrow> Inl FileNotFoundError
           | Some (Dir st m es) \<Rightarrow> Inl IsADirectoryError
           | Some _ \<Rightarrow>
               (case lookup (fs_root w) (butlast loc) of
                  Some (Dir st m es) \<Rightarrow>
                    if writable m then Inr (w\<lparr>fs_root := delete_at loc (fs_root w)\<rparr>)
                    else Inl PermissionError
                | _ \<Rightarrow> Inl NotADirectoryError)))"

fun walk :: "(string \<Rightarrow> bool) \<Rightarrow> string \<Rightarrow> node \<Rightarrow> (string \<times> string list \<times> string list) list" where
  \<comment> \<open>\<^verbatim>\<open>os.walk(top)\<close>, top-down, with the caller's pruning \<^verbatim>\<open>dirs[:] = [d for d in dirs if keep(d)]\<close>
      applied before the descent. A directory that cannot be listed yields nothing
      (\<^verbatim>\<open>onerror\<close> is \<^verbatim>\<open>None\<close>); its subdirectories are reached through it, so they are
      listed only if it may be searched.\<close>
  "walk keep dirpath (Dir st m es) =
     (if \<not> readable m then []
      else (dirpath,
            filter keep (map fst (filter (\<lambda>e. is_dir (snd e)) es)),
            map fst (filter (\<lambda>e. \<not> is_dir (snd e)) es))
           # (if searchable m
              then concat (map (\<lambda>e. if is_dir (snd e) \<and> keep (fst e)
                                      then walk keep (join dirpath (fst e)) (snd e) else []) es)
              else []))"
| "walk keep dirpath _ = []"

definition os_walk :: "world \<Rightarrow> (string \<Rightarrow> bool) \<Rightarrow> string \<Rightarrow> (string \<times> string list \<times> string list) list" where
  "os_walk w keep directory = (case os_stat w directory of Inl e \<Rightarrow> [] | Inr n \<Rightarrow> walk keep directory n)"

section \<open>The program\<close>

definition git_last_commit_timestamp :: "world \<Rightarrow> string \<Rightarrow> int option" where
  \<comment> \<open>every exception of the \<^verbatim>\<open>try\<close> block, the \<^verbatim>\<open>ValueError\<close> of \<^verbatim>\<open>int\<close> included, is
      caught and gives \<open>None\<close>\<close>
  "git_last_commit_timestamp w path =
     (case git_log w path of
        Raised \<Rightarrow> None
      | Completed returncode out \<Rightarrow>
          if returncode \<noteq> 0 then None
          else let v = strip out
               in if v = [] then None else py_int v)"

definition get_timestamp :: "world \<Rightarrow> string \<Rightarrow> string \<Rightarrow> py_error + real" where
  "get_timestamp w path source =
     (if source = ''mtime'' then getmtime w path
      else if source = ''atime'' then getatime w path
      else if source = ''ctime'' then getctime w path
      else if source = ''git'' then
        (case git_last_commit_timestamp w path of
           Some ts \<Rightarrow> py_float ts
         | None \<Rightarrow> getmtime w path)
      else getmtime w path)"

definition is_hidden :: "world \<Rightarrow> string \<Rightarrow> string \<Rightarrow> bool" where
  \<comment> \<open>the inner function of \<^verbatim>\<open>iter_files\<close>, with its free variable \<open>directory\<close>\<close>
  "is_hidden w directory p =
     list_ex (\<lambda>part. startswith part ''.'') (split_sep (relpath (cwd w) p directory))"

definition iter_files :: "world \<Rightarrow> string \<Rightarrow> bool \<Rightarrow> bool \<Rightarrow> py_error + string list" where
  \<comment> \<open>the paths the generator yields, in order; \<open>Inl\<close> when \<^verbatim>\<open>os.listdir\<close> raises, which
      happens before the first path is yielded\<close>
  "iter_files w directory recursive include_hidden =
     (if \<not> recursive then
        (case listdir w directory of
           Inl e \<Rightarrow> Inl e
         | Inr names \<Rightarrow>
             Inr (concat (map (\<lambda>name.
                    let p = join directory name
                    in if isfile w p
                       then (if \<not> include_hidden \<and> is_hidden w directory p then [] else [p])
                       else []) names)))
      else
        Inr (concat (map (\<lambda>(root_path, dirs, files).
               concat (map (\<lambda>name.
                 let p = join root_path name
                 in if \<not> include_hidden \<and> is_hidden w directory p then [] else [p]) files))
             (os_walk w (\<lambda>d. include_hidden \<or> \<not> startswith d ''.'') directory))))"

datatype log_line =
    Skip_excluded string
  | Missing string
  | Check string real real string
  | Would_remove string
  | Removed string
  | Could_not_remove string py_error
  | Done int int int string int bool bool

record sweep =
  world_of :: world
  removed :: int
  considered :: int
  skipped_excluded :: int
  printed :: "log_line list"

definition print :: "log_line \<Rightarrow> sweep \<Rightarrow> sweep" where
  "print l s = s\<lparr>printed := printed s @ [l]\<rparr>"

definition process_file ::
  "string set \<Rightarrow> real \<Rightarrow> bool \<Rightarrow> bool \<Rightarrow> string \<Rightarrow> sweep \<Rightarrow> string \<Rightarrow> py_error + sweep" where
  \<comment> \<open>the body of the \<^verbatim>\<open>for\<close> loop of \<^verbatim>\<open>remove_old_files\<close>; \<open>Inl\<close> is an exception
      that leaves the loop. Printing is taken to succeed: a write error of the output
      stream, and \<^verbatim>\<open>time.localtime\<close> refusing a time stamp when it formats the verbose
      \<^verbatim>\<open>Check:\<close> line, are not modelled.\<close>
  "process_file excluded cutoff dry_run verbose age_source s file_path =
     (let s1 = s\<lparr>considered := considered s + 1\<rparr>
      in if normpath file_path \<in> excluded then
           Inr ((if verbose then print (Skip_excluded file_path) else id)
                  (s1\<lparr>skipped_excluded := skipped_excluded s1 + 1\<rparr>))
         else
           (case get_timestamp (world_of s1) file_path age_source of
              Inl e \<Rightarrow>
                if e = FileNotFoundError
                then Inr ((if verbose then print (Missing file_path) else id) s1)
                else Inl e
            | Inr file_ts \<Rightarrow>
                let s2 = (if verbose then print (Check file_path file_ts cutoff age_source) else id) s1
                in if file_ts < cutoff then
                     (if dry_run then
                        Inr ((print (Would_remove file_path) s2)\<lparr>removed := removed s2 + 1\<rparr>)
                      else
                        (case os_remove (world_of s2) file_path of
                           Inr w' \<Rightarrow>
                             Inr ((print (Removed file_path) (s2\<lparr>world_of := w'\<rparr>))
                                    \<lparr>removed := removed s2 + 1\<rparr>)
                         | Inl e \<Rightarrow> Inr (print (Could_not_remove file_path e) s2)))
                   else Inr s2))"

fun sweep_loop :: "(sweep \<Rightarrow> string \<Rightarrow> py_error + sweep) \<Rightarrow> sweep \<Rightarrow> string list \<Rightarrow> py_error + sweep" where
  "sweep_loop body s [] = Inr s"
| "sweep_loop body s (p # ps) =
     (case body s p of Inl e \<Rightarrow> Inl e | Inr s' \<Rightarrow> sweep_loop body s' ps)"

definition cutoff_of :: "real \<Rightarrow> int \<Rightarrow> real" where
  \<comment> \<open>\<^verbatim>\<open>now - days * 86400\<close>, when the integer converts to a float\<close>
  "cutoff_of now days = now - float_value (days * 86400)"

definition excluded_of :: "string \<Rightarrow> string list \<Rightarrow> string set" where
  "excluded_of directory exclude_filenames =
     set (map (\<lambda>f. normpath (join directory f)) exclude_filenames)"

definition start :: "world \<Rightarrow> sweep" where
  "start w = \<lparr>world_of = w, removed = 0, considered = 0, skipped_excluded = 0, printed = []\<rparr>"

definition remove_old_files ::
  "world \<Rightarrow> real \<Rightarrow> string \<Rightarrow> string list \<Rightarrow> int \<Rightarrow> bool \<Rightarrow> bool \<Rightarrow> bool \<Rightarrow> bool \<Rightarrow> string
     \<Rightarrow> py_error + sweep" where
  \<comment> \<open>\<open>now\<close> is the value of \<^verbatim>\<open>time.time()\<close>; the subtraction converts \<open>days * 86400\<close>
      to a float and raises when that overflows. The generator is consumed while the loop
      deletes; the loop deletes only the path it was just given, which the generator
      does not read again, so the paths are those of the tree at the start.\<close>
  "remove_old_files w now directory exclude_filenames days dry_run verbose recursive
       include_hidden age_source =
     (case py_float (days * 86400) of
        Inl e \<Rightarrow> Inl e
      | Inr seconds \<Rightarrow>
          let cutoff = cutoff_of now days;
              excluded = excluded_of directory exclude_filenames
          in case iter_files w directory recursive include_hidden of
               Inl e \<Rightarrow> Inl e
             | Inr files \<Rightarrow>
                 (case sweep_loop (process_file excluded cutoff dry_run verbose age_source)
                         (start w) files of
                    Inl e \<Rightarrow> Inl e
                  | Inr s \<Rightarrow>
                      Inr (print (Done (considered s) (removed s) (skipped_excluded s)
                                    age_source days recursive dry_run) s)))"

section \<open>Well-formed trees and example worlds\<close>

text \<open>
  An entry name of a real file system is not empty, is neither \<^verbatim>\<open>.\<close> nor \<^verbatim>\<open>..\<close> and
  holds no separator.
\<close>

definition valid_name :: "string \<Rightarrow> bool" where
  "valid_name n = (n \<noteq> [] \<and> n \<noteq> ''.'' \<and> n \<noteq> ''..'' \<and> CHR ''/'' \<notin> set n)"

fun wf_node :: "node \<Rightarrow> bool" where
  "wf_node (Dir st m es) = list_all (\<lambda>e. valid_name (fst e) \<and> wf_node (snd e)) es"
| "wf_node _ = True"

definition would_remove :: "sweep \<Rightarrow> string set" where
  \<comment> \<open>the paths of the \<^verbatim>\<open>Would remove:\<close> lines\<close>
  "would_remove s = {p. Would_remove p \<in> set (printed s)}"

text \<open>
  What the sweep may change. \<open>entry_info\<close> is what \<^verbatim>\<open>stat\<close> tells of a node: its kind, its
  time stamps and its mode, not its entries. \<open>gone w w' D\<close> says that \<open>w'\<close> is \<open>w\<close> without
  the files at the locations \<open>D\<close>, every other location being as it was.
\<close>

fun entry_info :: "node \<Rightarrow> node" where
  "entry_info (Dir st m es) = Dir st m []"
| "entry_info n = n"

definition peek :: "node \<Rightarrow> string list \<Rightarrow> node option" where
  "peek fs l = map_option entry_info (lookup fs l)"

definition gone :: "world \<Rightarrow> world \<Rightarrow> string list set \<Rightarrow> bool" where
  "gone w w' D \<longleftrightarrow>
     cwd w' = cwd w \<and> git_log w' = git_log w \<and>
     (\<forall>l. peek (fs_root w') l = (if l \<in> D then None else peek (fs_root w) l)) \<and>
     (\<forall>l \<in> D. \<exists>n. lookup (fs_root w) l = Some n \<and> \<not> is_dir n)"

definition to_remove :: "world \<Rightarrow> string set \<Rightarrow> real \<Rightarrow> string \<Rightarrow> string \<Rightarrow> bool" where
  \<comment> \<open>the candidate is not excluded and its time stamp, resolved in \<open>w\<close>, is before the cutoff\<close>
  "to_remove w excluded cutoff age_source p =
     (normpath p \<notin> excluded \<and>
      (case get_timestamp w p age_source of Inl e \<Rightarrow> False | Inr ts \<Rightarrow> ts < cutoff))"

definition stamp :: "real \<Rightarrow> stat_result" where
  "stamp t = \<lparr>st_mtime = t, st_atime = t, st_ctime = t\<rparr>"

definition rwx :: dir_mode where
  "rwx = \<lparr>readable = True, writable = True, searchable = True\<rparr>"

definition read_only :: dir_mode where
  \<comment> \<open>mode \<^verbatim>\<open>r-x\<close>: entries cannot be unlinked\<close>
  "read_only = \<lparr>readable = True, writable = False, searchable = True\<rparr>"

definition list_only :: dir_mode where
  \<comment> \<open>mode \<^verbatim>\<open>r--\<close>: the names can be listed, the entries cannot be reached\<close>
  "list_only = \<lparr>readable = True, writable = False, searchable = False\<rparr>"

text \<open>
  The clock of the examples reads \<open>10000000\<close>; with \<open>days = 30\<close> the cutoff is
  \<open>7408000\<close>. A time stamp of \<open>6544000\<close> is 40 days old, \<open>9568000\<close> is 5 days old.
\<close>

definition demo_dir :: "dir_mode \<Rightarrow> dir_mode \<Rightarrow> node" where
  \<comment> \<open>the directory \<^verbatim>\<open>/r\<close> of the examples, with the mode of \<^verbatim>\<open>/r\<close> and of \<^verbatim>\<open>/r/sub\<close>\<close>
  "demo_dir m m_sub =
     Dir (stamp 9000000) m
       [(''a.txt'', File (stamp 6544000)),
        (''b.txt'', File (stamp 9568000)),
        (''README.md'', File (stamp 6544000)),
        (''.env'', File (stamp 6544000)),
        (''sub'', Dir (stamp 9000000) m_sub
           [(''README.md'', File (stamp 6544000)),
            (''old2.txt'', File (stamp 6544000)),
            (''.hidden'', Dir (stamp 9000000) rwx [(''old.txt'', File (stamp 6544000))])])]"

definition demo_git :: "string \<Rightarrow> proc_result" where
  \<comment> \<open>only \<^verbatim>\<open>/r/b.txt\<close> is tracked; \<^verbatim>\<open>git\<close> prints nothing for the other paths\<close>
  "demo_git path =
     (if path = ''/r/b.txt'' then Completed 0 (''1700000000'' @ [CHR 0x0A]) else Completed 0 [])"

definition demo :: world where
  "demo = \<lparr>fs_root = Dir (stamp 0) rwx [(''r'', demo_dir rwx rwx)], cwd = [], git_log = demo_git\<rparr>"

definition demo_locked :: world where
  \<comment> \<open>\<^verbatim>\<open>/r\<close> is read-only\<close>
  "demo_locked =
     \<lparr>fs_root = Dir (stamp 0) rwx [(''r'', demo_dir read_only rwx)], cwd = [], git_log = demo_git\<rparr>"

definition demo_closed :: world where
  \<comment> \<open>\<^verbatim>\<open>/r/sub\<close> can be listed and not searched\<close>
  "demo_closed =
     \<lparr>fs_root = Dir (stamp 0) rwx [(''r'', demo_dir rwx list_only)], cwd = [], git_log = demo_git\<rparr>"

definition huge_output :: string where
  \<comment> \<open>a one followed by 309 zeros and a newline\<close>
  "huge_output = CHR ''1'' # replicate 309 CHR ''0'' @ [CHR 0x0A]"

definition demo_huge :: world where
  \<comment> \<open>\<^verbatim>\<open>git\<close> prints \<open>huge_output\<close> for every path\<close>
  "demo_huge =
     \<lparr>fs_root = Dir (stamp 0) rwx [(''r'', demo_dir rwx rwx)], cwd = [],
      git_log = (\<lambda>path. Completed 0 huge_output)\<rparr>"

section \<open>Properties\<close>

subsection \<open>Unfolding the definitions on concrete inputs\<close>

lemmas example_defs = demo_def demo_locked_def demo_closed_def demo_huge_def demo_dir_def
  demo_git_def stamp_def
  rwx_def read_only_def list_only_def
lemmas os_defs = os_stat_def locate_def getmtime_def getatime_def getctime_def listdir_def
  isfile_def lexists_def os_remove_def os_walk_def startswith_def endswith_def join_def
lemmas path_defs = normpath_def norm_comps_def norm_step_def initial_slashes_def getcwd_def
  abspath_def relpath_def
lemmas sweep_defs = excluded_of_def cutoff_of_def float_value_def py_float_def start_def print_def

lemmas program_defs = process_file_def get_timestamp_def git_last_commit_timestamp_def
  py_int_def int_max_str_digits_def strip_def is_space_def digit_val_def to_remove_def
  would_remove_def

subsection \<open>The time stamp of a path\<close>

text \<open>
  Claim C10. \<^verbatim>\<open>get_timestamp\<close> is total in its source: for every path and every source
  other than \<^verbatim>\<open>mtime\<close>, \<^verbatim>\<open>atime\<close>, \<^verbatim>\<open>ctime\<close> and \<^verbatim>\<open>git\<close> it does what
  \<^verbatim>\<open>os.path.getmtime\<close> does on the path: it returns the modification time, and the
  unrecognised source raises nothing.
\<close>

theorem unknown_source_is_mtime:
  "source \<notin> {''mtime'', ''atime'', ''ctime'', ''git''} \<Longrightarrow>
   get_timestamp w path source = getmtime w path"
  by (simp add: get_timestamp_def)

theorem unknown_source_is_mtime_witness:
  "''birth'' \<notin> {''mtime'', ''atime'', ''ctime'', ''git''} \<and>
   get_timestamp demo ''/r/a.txt'' ''birth'' = Inr 6544000"
proof -
  have h: "''birth'' \<notin> {''mtime'', ''atime'', ''ctime'', ''git''}" by simp
  have "getmtime demo ''/r/a.txt'' = Inr 6544000"
    by (simp add: example_defs os_defs)
  with unknown_source_is_mtime [OF h, of demo "''/r/a.txt''"] h show ?thesis by simp
qed

subsection \<open>Integers as floats\<close>



lemma py_float_error: "py_float n = Inl e \<Longrightarrow> e = OverflowError"
  by (auto simp: py_float_def split: if_splits)

lemma float_value_big:
  assumes big: "2 ^ 53 \<le> \<bar>n\<bar>"
  defines "b \<equiv> floorlog 2 (nat \<bar>n\<bar>)"
  shows "2 ^ (b - 1) \<le> \<bar>float_value n\<bar> \<and> \<bar>float_value n\<bar> \<le> 2 ^ b \<and>
         2 ^ (b - 1) \<le> \<bar>n\<bar> \<and> \<bar>n\<bar> < 2 ^ b"
proof -
  let ?a = "\<bar>n\<bar>"
  from big have pos: "0 < nat ?a" by simp
  from floorlog_bounds [OF pos, of 2] have
    nb: "2 ^ (b - 1) \<le> nat ?a" "nat ?a < 2 ^ b" by (simp_all add: b_def)
  then have ib: "2 ^ (b - 1) \<le> ?a" "?a < 2 ^ b"
    by (simp_all add: nat_le_iff nat_less_iff)
  from big ib(2) have "(2::int) ^ 53 < 2 ^ b" by simp
  then have b53: "53 < b" by (rule power_less_imp_less_exp [rotated]) simp
  define k where "k = b - 53"
  define q where "q = ?a div 2 ^ k"
  define r where "r = ?a mod 2 ^ k"
  define q' where "q' = (if 2 ^ k < 2 * r \<or> (2 * r = 2 ^ k \<and> odd q) then q + 1 else q)"
  from b53 have bk: "b = k + 53" "b - 1 = k + 52" by (simp_all add: k_def)
  have "?a = ?a div 2 ^ k * 2 ^ k + ?a mod 2 ^ k"
    by (rule div_mult_mod_eq [symmetric])
  then have d: "?a = q * 2 ^ k + r" "0 \<le> r" "r < 2 ^ k"
    unfolding q_def r_def by simp_all
  have pk: "(0::int) < 2 ^ k" by simp
  from ib(2) have "?a < 2 ^ 53 * 2 ^ k" by (simp add: bk power_add mult.commute)
  with d have "q * 2 ^ k < 2 ^ 53 * 2 ^ k" by linarith
  with pk have q_hi: "q < 2 ^ 53" by (simp only: mult_less_cancel_right_pos)
  from ib(1) have "2 ^ 52 * 2 ^ k \<le> ?a" by (simp add: bk power_add mult.commute)
  with d have "2 ^ 52 * 2 ^ k < q * 2 ^ k + 2 ^ k" by linarith
  then have "2 ^ 52 * 2 ^ k < (q + 1) * 2 ^ k" by (simp add: algebra_simps)
  with pk have "2 ^ 52 < q + 1" by (simp only: mult_less_cancel_right_pos)
  then have q_lo: "2 ^ 52 \<le> q" by simp
  from q_lo q_hi have q'b: "2 ^ 52 \<le> q'" "q' \<le> 2 ^ 53" by (auto simp: q'_def)
  have fv: "float_value n = of_int (sgn n * q' * 2 ^ k)"
    using big by (simp add: float_value_def Let_def k_def q_def r_def q'_def b_def)
  from big have "n \<noteq> 0" by auto
  then have "\<bar>sgn n * q' * 2 ^ k\<bar> = q' * 2 ^ k"
    using q'b by (simp add: abs_mult abs_sgn_eq)
  then have av: "\<bar>float_value n\<bar> = of_int (q' * 2 ^ k)"
    unfolding fv by (metis of_int_abs)
  from q'b have "2 ^ 52 * 2 ^ k \<le> q' * (2::int) ^ k" "q' * (2::int) ^ k \<le> 2 ^ 53 * 2 ^ k"
    by (simp_all add: mult_right_mono)
  then have "(2::int) ^ (b - 1) \<le> q' * 2 ^ k" "q' * (2::int) ^ k \<le> 2 ^ b"
    by (simp_all add: bk power_add mult.commute)
  then have "(2::real) ^ (b - 1) \<le> of_int (q' * 2 ^ k)" "real_of_int (q' * 2 ^ k) \<le> 2 ^ b"
    by (metis of_int_le_iff of_int_numeral of_int_power)+
  with av ib show ?thesis by simp
qed

lemma py_float_overflow:
  assumes "2 ^ 1024 \<le> \<bar>n\<bar>"
  shows "py_float n = Inl OverflowError"
proof -
  have "(2::int) ^ 53 \<le> 2 ^ 1024" by simp
  with assms have big: "2 ^ 53 \<le> \<bar>n\<bar>" by linarith
  let ?b = "floorlog 2 (nat \<bar>n\<bar>)"
  from float_value_big [OF big] have
    v: "2 ^ (?b - 1) \<le> \<bar>float_value n\<bar>" and n: "\<bar>n\<bar> < 2 ^ ?b" by simp_all
  from assms n have "(2::int) ^ 1024 < 2 ^ ?b" by linarith
  then have "1024 < ?b" by (rule power_less_imp_less_exp [rotated]) simp
  then have "1024 \<le> ?b - 1" by simp
  then have "(2::real) ^ 1024 \<le> 2 ^ (?b - 1)" by (rule power_increasing) simp
  with v have "2 ^ 1024 \<le> \<bar>float_value n\<bar>" by linarith
  then show ?thesis by (simp add: py_float_def)
qed











subsection \<open>The counters\<close>

lemma process_file_counters:
  assumes "process_file excluded cutoff dry_run verbose age_source s p = Inr s'"
  shows "considered s' = considered s + 1 \<and>
         ((removed s' = removed s \<and> skipped_excluded s' = skipped_excluded s) \<or>
          (removed s' = removed s + 1 \<and> skipped_excluded s' = skipped_excluded s) \<or>
          (removed s' = removed s \<and> skipped_excluded s' = skipped_excluded s + 1))"
  using assms
  by (auto simp: process_file_def Let_def print_def split: if_splits sum.splits)

lemma sweep_loop_counters:
  assumes "sweep_loop (process_file excluded cutoff dry_run verbose age_source) s ps = Inr s'"
  shows "considered s' = considered s + int (length ps) \<and>
         removed s \<le> removed s' \<and> skipped_excluded s \<le> skipped_excluded s' \<and>
         (removed s' - removed s) + (skipped_excluded s' - skipped_excluded s) \<le> int (length ps)"
  using assms
proof (induction ps arbitrary: s)
  case Nil
  then show ?case by simp
next
  case (Cons p ps)
  from Cons.prems obtain s1 where
    step: "process_file excluded cutoff dry_run verbose age_source s p = Inr s1" and
    rest: "sweep_loop (process_file excluded cutoff dry_run verbose age_source) s1 ps = Inr s'"
    by (auto split: sum.splits)
  from process_file_counters [OF step] Cons.IH [OF rest] show ?case by auto
qed

lemma sweep_loop_prefix:
  "sweep_loop body s ps = Inr s' \<Longrightarrow> \<exists>t. sweep_loop body s (take k ps) = Inr t"
proof (induction ps arbitrary: s k)
  case Nil
  then show ?case by simp
next
  case (Cons p ps)
  then show ?case by (cases k) (auto split: sum.splits)
qed

text \<open>
  Claim C9. After any number \<open>k\<close> of rounds of the loop, \<open>considered\<close> is the number of
  candidates handled so far, \<open>removed\<close> and \<open>skipped_excluded\<close> are not negative and their
  sum is at most \<open>considered\<close>; a sweep that reaches its end has passed through each of
  these points; and one round adds one to \<open>considered\<close> and one to at most one of
  \<open>removed\<close> and \<open>skipped_excluded\<close>.
\<close>

theorem counters_invariant:
  "(sweep_loop (process_file excluded cutoff dry_run verbose age_source) (start w) (take k files) = Inr s
      \<longrightarrow> considered s = int (length (take k files)) \<and> 0 \<le> removed s \<and> 0 \<le> skipped_excluded s
          \<and> removed s + skipped_excluded s \<le> considered s) \<and>
   (sweep_loop (process_file excluded cutoff dry_run verbose age_source) (start w) files = Inr s_end
      \<longrightarrow> (\<exists>t. sweep_loop (process_file excluded cutoff dry_run verbose age_source) (start w)
                 (take k files) = Inr t)) \<and>
   (process_file excluded cutoff dry_run verbose age_source s0 p = Inr s1
      \<longrightarrow> considered s1 = considered s0 + 1 \<and>
          ((removed s1 = removed s0 \<and> skipped_excluded s1 = skipped_excluded s0) \<or>
           (removed s1 = removed s0 + 1 \<and> skipped_excluded s1 = skipped_excluded s0) \<or>
           (removed s1 = removed s0 \<and> skipped_excluded s1 = skipped_excluded s0 + 1)))"
proof (intro conjI impI)
  assume a: "sweep_loop (process_file excluded cutoff dry_run verbose age_source) (start w) (take k files) = Inr s"
  from sweep_loop_counters [OF a]
  show "considered s = int (length (take k files))" "0 \<le> removed s" "0 \<le> skipped_excluded s"
       "removed s + skipped_excluded s \<le> considered s"
    by (simp_all add: start_def)
next
  assume "sweep_loop (process_file excluded cutoff dry_run verbose age_source) (start w) files = Inr s_end"
  then show "\<exists>t. sweep_loop (process_file excluded cutoff dry_run verbose age_source) (start w)
                 (take k files) = Inr t"
    by (rule sweep_loop_prefix)
next
  assume "process_file excluded cutoff dry_run verbose age_source s0 p = Inr s1"
  from process_file_counters [OF this]
  show "considered s1 = considered s0 + 1" 
    "(removed s1 = removed s0 \<and> skipped_excluded s1 = skipped_excluded s0) \<or>
           (removed s1 = removed s0 + 1 \<and> skipped_excluded s1 = skipped_excluded s0) \<or>
           (removed s1 = removed s0 \<and> skipped_excluded s1 = skipped_excluded s0 + 1)"
    by simp_all
qed

theorem counters_invariant_witness:
  "\<exists>s. sweep_loop (process_file (excluded_of ''/r'' [''README.md'']) (cutoff_of 10000000 30)
             False False ''mtime'') (start demo)
           (take 3 [''/r/a.txt'', ''/r/b.txt'', ''/r/README.md'', ''/r/.env'']) = Inr s \<and>
        considered s = 3 \<and> removed s = 1 \<and> skipped_excluded s = 1 \<and>
        removed s + skipped_excluded s \<le> considered s"
proof -
  have "\<exists>s. sweep_loop (process_file (excluded_of ''/r'' [''README.md'']) (cutoff_of 10000000 30)
             False False ''mtime'') (start demo)
           (take 3 [''/r/a.txt'', ''/r/b.txt'', ''/r/README.md'', ''/r/.env'']) = Inr s \<and>
           removed s = 1 \<and> skipped_excluded s = 1"
    by (simp add: program_defs sweep_defs path_defs example_defs os_defs)
  then obtain s where
    run: "sweep_loop (process_file (excluded_of ''/r'' [''README.md'']) (cutoff_of 10000000 30)
             False False ''mtime'') (start demo)
           (take 3 [''/r/a.txt'', ''/r/b.txt'', ''/r/README.md'', ''/r/.env'']) = Inr s"
    and counts: "removed s = 1" "skipped_excluded s = 1"
    by blast
  from counters_invariant [THEN conjunct1, rule_format, OF run]
  have "considered s = 3" "removed s + skipped_excluded s \<le> considered s" by simp_all
  with run counts show ?thesis by blast
qed

subsection \<open>A deletion that fails\<close>

text \<open>
  Claim C8. In a sweep that is not a dry run, when the candidate is old enough, is not
  excluded and \<^verbatim>\<open>os.remove\<close> raises, the round ends normally: the error is the last line
  printed, the file system is as it was, of the counters only \<open>considered\<close> has moved,
  and the loop goes on with the next candidate.
\<close>

theorem failed_deletion_is_skipped:
  assumes "normpath p \<notin> excluded"
    and "get_timestamp (world_of s) p age_source = Inr ts"
    and "ts < cutoff"
    and "os_remove (world_of s) p = Inl e"
  shows "\<exists>s'. process_file excluded cutoff False verbose age_source s p = Inr s' \<and>
              world_of s' = world_of s \<and>
              removed s' = removed s \<and> skipped_excluded s' = skipped_excluded s \<and>
              considered s' = considered s + 1 \<and>
              last (printed s') = Could_not_remove p e \<and>
              sweep_loop (process_file excluded cutoff False verbose age_source) s (p # ps) =
              sweep_loop (process_file excluded cutoff False verbose age_source) s' ps"
  using assms by (simp add: process_file_def Let_def print_def)

theorem failed_deletion_is_skipped_witness:
  "normpath ''/r/a.txt'' \<notin> excluded_of ''/r'' [''README.md''] \<and>
   get_timestamp (world_of (start demo_locked)) ''/r/a.txt'' ''mtime'' = Inr 6544000 \<and>
   6544000 < cutoff_of 10000000 30 \<and>
   os_remove (world_of (start demo_locked)) ''/r/a.txt'' = Inl PermissionError \<and>
   (\<exists>s'. process_file (excluded_of ''/r'' [''README.md'']) (cutoff_of 10000000 30) False False
            ''mtime'' (start demo_locked) ''/r/a.txt'' = Inr s' \<and>
         world_of s' = demo_locked \<and> removed s' = 0 \<and> skipped_excluded s' = 0 \<and>
         considered s' = 1 \<and> last (printed s') = Could_not_remove ''/r/a.txt'' PermissionError)"
proof -
  have h1: "normpath ''/r/a.txt'' \<notin> excluded_of ''/r'' [''README.md'']"
    by (simp add: sweep_defs path_defs os_defs)
  have h2: "get_timestamp (world_of (start demo_locked)) ''/r/a.txt'' ''mtime'' = Inr 6544000"
    by (simp add: program_defs sweep_defs example_defs os_defs)
  have h3: "6544000 < cutoff_of 10000000 30"
    by (simp add: cutoff_of_def float_value_def)
  have h4: "os_remove (world_of (start demo_locked)) ''/r/a.txt'' = Inl PermissionError"
    by (simp add: sweep_defs example_defs os_defs)
  from failed_deletion_is_skipped [OF h1 h2 h3 h4, of False "[]"]
  have "\<exists>s'. process_file (excluded_of ''/r'' [''README.md'']) (cutoff_of 10000000 30) False False
            ''mtime'' (start demo_locked) ''/r/a.txt'' = Inr s' \<and>
         world_of s' = demo_locked \<and> removed s' = 0 \<and> skipped_excluded s' = 0 \<and>
         considered s' = 1 \<and> last (printed s') = Could_not_remove ''/r/a.txt'' PermissionError"
    by (auto simp: start_def)
  with h1 h2 h3 h4 show ?thesis by blast
qed

subsection \<open>Errors of the time stamp\<close>

lemma process_file_abort:
  "process_file excluded cutoff dry_run verbose age_source s p = Inl e \<longleftrightarrow>
   normpath p \<notin> excluded \<and> get_timestamp (world_of s) p age_source = Inl e \<and> e \<noteq> FileNotFoundError"
  by (auto simp: process_file_def Let_def print_def split: sum.splits if_splits)

lemma sweep_loop_reaches_abort:
  "sweep_loop body s (take k ps) = Inr t \<Longrightarrow> k < length ps \<Longrightarrow> body t (ps ! k) = Inl e \<Longrightarrow>
   sweep_loop body s ps = Inl e"
proof (induction ps arbitrary: s k)
  case Nil
  then show ?case by simp
next
  case (Cons p ps)
  show ?case
  proof (cases k)
    case 0
    with Cons.prems show ?thesis by simp
  next
    case (Suc j)
    with Cons.prems obtain s1 where
      "body s p = Inr s1" "sweep_loop body s1 (take j ps) = Inr t" "j < length ps"
      "body t (ps ! j) = Inl e"
      by (auto split: sum.splits)
    with Cons.IH [of s1 j] show ?thesis by simp
  qed
qed

lemma get_timestamp_error:
  "get_timestamp w p source = Inl e \<Longrightarrow>
   os_stat w p = Inl e \<or> (source = ''git'' \<and> e = OverflowError)"
  by (auto simp: get_timestamp_def getmtime_def getatime_def getctime_def
           split: if_splits option.splits sum.splits dest: py_float_error)

lemma get_timestamp_stat_error:
  "os_stat w p = Inl e \<Longrightarrow> source = ''git'' \<longrightarrow> git_last_commit_timestamp w p = None \<Longrightarrow>
   get_timestamp w p source = Inl e"
  by (auto simp: get_timestamp_def getmtime_def getatime_def getctime_def)

text \<open>
  Claim C7, as amended. An error of \<^verbatim>\<open>get_timestamp\<close> is the error of the \<^verbatim>\<open>stat\<close> of the
  path or, with the source \<^verbatim>\<open>git\<close>, the \<^verbatim>\<open>OverflowError\<close> of the conversion to a
  float; an error of the \<^verbatim>\<open>stat\<close> is passed on unless \<^verbatim>\<open>git\<close> gave a time stamp. When the
  error is \<^verbatim>\<open>FileNotFoundError\<close> the round ends normally: the candidate is skipped,
  counted in \<open>considered\<close> only, the file system is untouched and the loop goes on. Any
  other error (\<^verbatim>\<open>PermissionError\<close> for a file in a directory that may not be searched)
  is not caught: it leaves the round and the loop, and the sweep ends with it. The sweep
  also ends with an error when \<^verbatim>\<open>os.listdir\<close> of the root directory raises, in a sweep
  that is not recursive, and when \<open>days * 86400\<close> does not convert to a float.
\<close>

theorem timestamp_errors_in_sweep:
  "(get_timestamp w p age_source = Inl e \<longrightarrow>
      os_stat w p = Inl e \<or> (age_source = ''git'' \<and> e = OverflowError)) \<and>
   (os_stat w p = Inl e \<and> (age_source = ''git'' \<longrightarrow> git_last_commit_timestamp w p = None) \<longrightarrow>
      get_timestamp w p age_source = Inl e) \<and>
   (normpath p \<notin> excluded \<and> get_timestamp (world_of s) p age_source = Inl FileNotFoundError
      \<longrightarrow> (\<exists>s'. process_file excluded cutoff dry_run verbose age_source s p = Inr s' \<and>
                world_of s' = world_of s \<and> considered s' = considered s + 1 \<and>
                removed s' = removed s \<and> skipped_excluded s' = skipped_excluded s \<and>
                sweep_loop (process_file excluded cutoff dry_run verbose age_source) s (p # ps) =
                sweep_loop (process_file excluded cutoff dry_run verbose age_source) s' ps)) \<and>
   (normpath p \<notin> excluded \<and> get_timestamp (world_of s) p age_source = Inl e \<and>
    e \<noteq> FileNotFoundError
      \<longrightarrow> process_file excluded cutoff dry_run verbose age_source s p = Inl e \<and>
          sweep_loop (process_file excluded cutoff dry_run verbose age_source) s (p # ps) = Inl e) \<and>
   (py_float (days * 86400) = Inr seconds \<and>
    iter_files w directory recursive include_hidden = Inr files \<and> k < length files \<and>
    sweep_loop (process_file (excluded_of directory exclude_filenames) (cutoff_of now days)
        dry_run False age_source) (start w) (take k files) = Inr t \<and>
    normpath (files ! k) \<notin> excluded_of directory exclude_filenames \<and>
    get_timestamp (world_of t) (files ! k) age_source = Inl e \<and> e \<noteq> FileNotFoundError
      \<longrightarrow> remove_old_files w now directory exclude_filenames days dry_run False recursive
            include_hidden age_source = Inl e) \<and>
   (py_float (days * 86400) = Inr seconds \<and> \<not> recursive \<and> listdir w directory = Inl e
      \<longrightarrow> remove_old_files w now directory exclude_filenames days dry_run verbose recursive
            include_hidden age_source = Inl e) \<and>
   (py_float (days * 86400) = Inl e
      \<longrightarrow> remove_old_files w now directory exclude_filenames days dry_run verbose recursive
            include_hidden age_source = Inl e)"
proof (intro conjI impI)
  assume "get_timestamp w p age_source = Inl e"
  then show "os_stat w p = Inl e \<or> (age_source = ''git'' \<and> e = OverflowError)"
    by (rule get_timestamp_error)
next
  assume "os_stat w p = Inl e \<and> (age_source = ''git'' \<longrightarrow> git_last_commit_timestamp w p = None)"
  then show "get_timestamp w p age_source = Inl e"
    by (simp add: get_timestamp_stat_error)
next
  assume "normpath p \<notin> excluded \<and> get_timestamp (world_of s) p age_source = Inl FileNotFoundError"
  then show "\<exists>s'. process_file excluded cutoff dry_run verbose age_source s p = Inr s' \<and>
                world_of s' = world_of s \<and> considered s' = considered s + 1 \<and>
                removed s' = removed s \<and> skipped_excluded s' = skipped_excluded s \<and>
                sweep_loop (process_file excluded cutoff dry_run verbose age_source) s (p # ps) =
                sweep_loop (process_file excluded cutoff dry_run verbose age_source) s' ps"
    by (simp add: process_file_def Let_def print_def)
next
  assume a: "normpath p \<notin> excluded \<and> get_timestamp (world_of s) p age_source = Inl e \<and>
    e \<noteq> FileNotFoundError"
  then show "process_file excluded cutoff dry_run verbose age_source s p = Inl e"
    by (simp add: process_file_abort)
  then show "sweep_loop (process_file excluded cutoff dry_run verbose age_source) s (p # ps) = Inl e"
    by simp
next
  let ?body = "process_file (excluded_of directory exclude_filenames) (cutoff_of now days)
        dry_run False age_source"
  assume a: "py_float (days * 86400) = Inr seconds \<and>
    iter_files w directory recursive include_hidden = Inr files \<and> k < length files \<and>
    sweep_loop ?body (start w) (take k files) = Inr t \<and>
    normpath (files ! k) \<notin> excluded_of directory exclude_filenames \<and>
    get_timestamp (world_of t) (files ! k) age_source = Inl e \<and> e \<noteq> FileNotFoundError"
  then have "?body t (files ! k) = Inl e" by (simp add: process_file_abort)
  with a have "sweep_loop ?body (start w) files = Inl e"
    by (intro sweep_loop_reaches_abort [of ?body "start w" k files t]) simp_all
  with a show "remove_old_files w now directory exclude_filenames days dry_run False recursive
            include_hidden age_source = Inl e"
    by (simp add: remove_old_files_def)
next
  assume "py_float (days * 86400) = Inr seconds \<and> \<not> recursive \<and> listdir w directory = Inl e"
  then show "remove_old_files w now directory exclude_filenames days dry_run verbose recursive
            include_hidden age_source = Inl e"
    by (simp add: remove_old_files_def iter_files_def)
next
  assume "py_float (days * 86400) = Inl e"
  then show "remove_old_files w now directory exclude_filenames days dry_run verbose recursive
            include_hidden age_source = Inl e"
    by (simp add: remove_old_files_def)
qed


theorem timestamp_errors_in_sweep_witness:
  "get_timestamp (world_of (start demo)) ''/r/gone.txt'' ''mtime'' = Inl FileNotFoundError \<and>
   os_stat (world_of (start demo)) ''/r/gone.txt'' = Inl FileNotFoundError \<and>
   normpath ''/r/gone.txt'' \<notin> excluded_of ''/r'' [''README.md''] \<and>
   (\<exists>s'. process_file (excluded_of ''/r'' [''README.md'']) (cutoff_of 10000000 30) False False
            ''mtime'' (start demo) ''/r/gone.txt'' = Inr s' \<and>
         world_of s' = demo \<and> considered s' = 1 \<and> removed s' = 0 \<and> skipped_excluded s' = 0) \<and>
   normpath ''/r/sub/old2.txt'' \<notin> excluded_of ''/r'' [''README.md''] \<and>
   os_stat (world_of (start demo_closed)) ''/r/sub/old2.txt'' = Inl PermissionError \<and>
   get_timestamp (world_of (start demo_closed)) ''/r/sub/old2.txt'' ''mtime'' = Inl PermissionError \<and>
   process_file (excluded_of ''/r'' [''README.md'']) (cutoff_of 10000000 30) False False
       ''mtime'' (start demo_closed) ''/r/sub/old2.txt'' = Inl PermissionError \<and>
   py_float (30 * 86400) = Inr 2592000 \<and>
   iter_files demo_closed ''/r'' True False =
     Inr [''/r/a.txt'', ''/r/b.txt'', ''/r/README.md'', ''/r/sub/README.md'', ''/r/sub/old2.txt''] \<and>
   remove_old_files demo_closed 10000000 ''/r'' [''README.md''] 30 False False True False ''mtime''
     = Inl PermissionError \<and>
   listdir demo ''/nowhere'' = Inl FileNotFoundError \<and>
   remove_old_files demo 10000000 ''/nowhere'' [''README.md''] 30 False False False False ''mtime''
     = Inl FileNotFoundError \<and>
   py_float (10 ^ 400 * 86400) = Inl OverflowError \<and>
   remove_old_files demo 10000000 ''/r'' [''README.md''] (10 ^ 400) False False False False ''mtime''
     = Inl OverflowError"
proof -
  let ?ex = "excluded_of ''/r'' [''README.md'']"
  have g: "get_timestamp (world_of (start demo)) ''/r/gone.txt'' ''mtime'' = Inl FileNotFoundError"
    by (simp add: program_defs sweep_defs example_defs os_defs)
  have n: "normpath ''/r/gone.txt'' \<notin> ?ex"
    by (simp add: sweep_defs path_defs os_defs)
  have n': "normpath ''/r/sub/old2.txt'' \<notin> ?ex"
    by (simp add: sweep_defs path_defs os_defs)
  have st': "os_stat (world_of (start demo_closed)) ''/r/sub/old2.txt'' = Inl PermissionError"
    by (simp add: sweep_defs example_defs os_defs)
  have f: "py_float (30 * 86400) = Inr 2592000"
    by (simp add: py_float_def float_value_def)
  have l: "listdir demo ''/nowhere'' = Inl FileNotFoundError"
    by (simp add: example_defs os_defs)
  have o: "py_float (10 ^ 400 * 86400) = Inl OverflowError"
    by (rule py_float_overflow) simp
  note t = timestamp_errors_in_sweep
  from t [THEN conjunct1, rule_format, OF g]
  have a: "os_stat (world_of (start demo)) ''/r/gone.txt'' = Inl FileNotFoundError" by simp
  from t [THEN conjunct2, THEN conjunct2, THEN conjunct1, rule_format, OF conjI [OF n g],
      of "cutoff_of 10000000 30" False False "[]"]
  have b: "\<exists>s'. process_file ?ex (cutoff_of 10000000 30) False False
            ''mtime'' (start demo) ''/r/gone.txt'' = Inr s' \<and>
         world_of s' = demo \<and> considered s' = 1 \<and> removed s' = 0 \<and> skipped_excluded s' = 0"
    by (auto simp: start_def)
  have "os_stat (world_of (start demo_closed)) ''/r/sub/old2.txt'' = Inl PermissionError \<and>
      (''mtime'' = ''git'' \<longrightarrow>
         git_last_commit_timestamp (world_of (start demo_closed)) ''/r/sub/old2.txt'' = None)"
    using st' by simp
  from t [THEN conjunct2, THEN conjunct1, rule_format, OF this]
  have g': "get_timestamp (world_of (start demo_closed)) ''/r/sub/old2.txt'' ''mtime'' =
      Inl PermissionError" .
  have "normpath ''/r/sub/old2.txt'' \<notin> ?ex \<and>
      get_timestamp (world_of (start demo_closed)) ''/r/sub/old2.txt'' ''mtime'' = Inl PermissionError \<and>
      PermissionError \<noteq> FileNotFoundError"
    using n' g' by simp
  from t [THEN conjunct2, THEN conjunct2, THEN conjunct2, THEN conjunct1, rule_format, OF this,
      of "cutoff_of 10000000 30" False False "[]"]
  have c: "process_file ?ex (cutoff_of 10000000 30) False False
       ''mtime'' (start demo_closed) ''/r/sub/old2.txt'' = Inl PermissionError"
    by simp
  have "py_float (30 * 86400) = Inr 2592000 \<and> \<not> False \<and> listdir demo ''/nowhere'' = Inl FileNotFoundError"
    using f l by simp
  from t [THEN conjunct2, THEN conjunct2, THEN conjunct2, THEN conjunct2, THEN conjunct2,
      THEN conjunct1, rule_format, OF this]
  have d: "remove_old_files demo 10000000 ''/nowhere'' [''README.md''] 30 False False False False
      ''mtime'' = Inl FileNotFoundError" .
  from t [THEN conjunct2, THEN conjunct2, THEN conjunct2, THEN conjunct2, THEN conjunct2,
      THEN conjunct2, rule_format, OF o]
  have e: "remove_old_files demo 10000000 ''/r'' [''README.md''] (10 ^ 400) False False False False
      ''mtime'' = Inl OverflowError" .
  let ?files = "[''/r/a.txt'', ''/r/b.txt'', ''/r/README.md'', ''/r/sub/README.md'', ''/r/sub/old2.txt'']"
  have files: "iter_files demo_closed ''/r'' True False = Inr ?files"
    by code_simp
  have "\<exists>t. sweep_loop (process_file ?ex (cutoff_of 10000000 30) False False ''mtime'')
            (start demo_closed) (take 3 ?files) = Inr t \<and>
          get_timestamp (world_of t) (?files ! 3) ''mtime'' = Inl PermissionError"
    by (simp add: program_defs sweep_defs path_defs example_defs os_defs)
  then obtain t where
    t1: "sweep_loop (process_file ?ex (cutoff_of 10000000 30) False False ''mtime'')
            (start demo_closed) (take 3 ?files) = Inr t"
    and t2: "get_timestamp (world_of t) (?files ! 3) ''mtime'' = Inl PermissionError"
    by blast
  have n3: "normpath (?files ! 3) \<notin> ?ex"
    by (simp add: sweep_defs path_defs os_defs)
  have k3: "3 < length ?files" by simp
  from f files k3 t1 n3 t2 have "py_float (30 * 86400) = Inr 2592000 \<and>
    iter_files demo_closed ''/r'' True False = Inr ?files \<and> 3 < length ?files \<and>
    sweep_loop (process_file (excluded_of ''/r'' [''README.md'']) (cutoff_of 10000000 30)
        False False ''mtime'') (start demo_closed) (take 3 ?files) = Inr t \<and>
    normpath (?files ! 3) \<notin> excluded_of ''/r'' [''README.md''] \<and>
    get_timestamp (world_of t) (?files ! 3) ''mtime'' = Inl PermissionError \<and>
    PermissionError \<noteq> FileNotFoundError"
    by blast
  from t [THEN conjunct2, THEN conjunct2, THEN conjunct2, THEN conjunct2, THEN conjunct1,
      rule_format, OF this]
  have r: "remove_old_files demo_closed 10000000 ''/r'' [''README.md''] 30 False False True False
      ''mtime'' = Inl PermissionError" .
  from g a n b n' st' g' c f files r l d o e show ?thesis by blast
qed

text \<open>
  The claim as it is written fails on a tree whose directory \<^verbatim>\<open>/r/sub\<close> can be listed
  and not searched: \<^verbatim>\<open>os.walk\<close> yields its files, the file \<^verbatim>\<open>/r/sub/old2.txt\<close> is in
  the tree, its \<^verbatim>\<open>stat\<close> raises \<^verbatim>\<open>PermissionError\<close>, and the recursive sweep of \<^verbatim>\<open>/r\<close>,
  whose root directory is listed without error, ends with that exception.
\<close>

theorem timestamp_error_aborts_counterexample:
  "iter_files demo_closed ''/r'' True False =
     Inr [''/r/a.txt'', ''/r/b.txt'', ''/r/README.md'', ''/r/sub/README.md'', ''/r/sub/old2.txt''] \<and>
   lookup (fs_root demo_closed) [''r'', ''sub'', ''old2.txt''] = Some (File (stamp 6544000)) \<and>
   get_timestamp demo_closed ''/r/sub/old2.txt'' ''mtime'' = Inl PermissionError \<and>
   remove_old_files demo_closed 10000000 ''/r'' [''README.md''] 30 False False True False ''mtime''
     = Inl PermissionError"
proof -
  have files: "iter_files demo_closed ''/r'' True False =
     Inr [''/r/a.txt'', ''/r/b.txt'', ''/r/README.md'', ''/r/sub/README.md'', ''/r/sub/old2.txt'']"
    by code_simp
  have "lookup (fs_root demo_closed) [''r'', ''sub'', ''old2.txt''] = Some (File (stamp 6544000))"
    by (simp add: example_defs)
  moreover have "get_timestamp demo_closed ''/r/sub/old2.txt'' ''mtime'' = Inl PermissionError"
    by (simp add: program_defs example_defs os_defs)
  moreover have "remove_old_files demo_closed 10000000 ''/r'' [''README.md''] 30 False False True
      False ''mtime'' = Inl PermissionError"
    unfolding remove_old_files_def files
    by (simp add: program_defs sweep_defs path_defs example_defs os_defs)
  ultimately show ?thesis using files by simp
qed


subsection \<open>Dry runs\<close>

lemma would_remove_print:
  "would_remove (print l s) = (case l of Would_remove p \<Rightarrow> insert p (would_remove s) | _ \<Rightarrow> would_remove s)"
  by (auto simp: would_remove_def print_def split: log_line.splits)

lemma dry_run_step:
  assumes "process_file excluded cutoff True verbose age_source s p = Inr s'"
  shows "world_of s' = world_of s \<and>
         removed s' = removed s + (if to_remove (world_of s) excluded cutoff age_source p then 1 else 0) \<and>
         would_remove s' = would_remove s \<union>
           (if to_remove (world_of s) excluded cutoff age_source p then {p} else {})"
  using assms
  by (auto simp: process_file_def Let_def to_remove_def would_remove_def print_def
           split: if_splits sum.splits)

lemma dry_run_loop:
  assumes "sweep_loop (process_file excluded cutoff True verbose age_source) s ps = Inr s'"
  shows "world_of s' = world_of s \<and>
         removed s' = removed s + int (length (filter (to_remove (world_of s) excluded cutoff age_source) ps)) \<and>
         would_remove s' = would_remove s \<union>
           {p \<in> set ps. to_remove (world_of s) excluded cutoff age_source p}"
  using assms
proof (induction ps arbitrary: s)
  case Nil
  then show ?case by simp
next
  case (Cons p ps)
  from Cons.prems obtain s1 where
    step: "process_file excluded cutoff True verbose age_source s p = Inr s1" and
    rest: "sweep_loop (process_file excluded cutoff True verbose age_source) s1 ps = Inr s'"
    by (auto split: sum.splits)
  from dry_run_step [OF step] Cons.IH [OF rest] show ?case by auto
qed

lemma to_remove_mono:
  "c \<le> c' \<Longrightarrow> to_remove w ex c src p \<Longrightarrow> to_remove w ex c' src p"
  by (auto simp: to_remove_def split: sum.splits)

lemma dry_run_sweep:
  assumes "remove_old_files w now directory exclude_filenames days True verbose recursive
             include_hidden age_source = Inr s"
  shows "world_of s = w \<and>
         (\<exists>files. iter_files w directory recursive include_hidden = Inr files \<and>
            removed s = int (length (filter
              (to_remove w (excluded_of directory exclude_filenames) (cutoff_of now days) age_source) files)) \<and>
            would_remove s = {p \<in> set files.
              to_remove w (excluded_of directory exclude_filenames) (cutoff_of now days) age_source p})"
proof -
  let ?body = "process_file (excluded_of directory exclude_filenames) (cutoff_of now days) True
                 verbose age_source"
  from assms obtain files t where
    files: "iter_files w directory recursive include_hidden = Inr files" and
    loop: "sweep_loop ?body (start w) files = Inr t" and
    s: "s = print (Done (considered t) (removed t) (skipped_excluded t) age_source days recursive True) t"
    by (auto simp: remove_old_files_def Let_def split: sum.splits)
  from dry_run_loop [OF loop] have
    "world_of t = w"
    "removed t = int (length (filter
              (to_remove w (excluded_of directory exclude_filenames) (cutoff_of now days) age_source) files))"
    "would_remove t = {p \<in> set files.
              to_remove w (excluded_of directory exclude_filenames) (cutoff_of now days) age_source p}"
    by (simp_all add: start_def would_remove_def)
  with s files show ?thesis
    by (simp add: would_remove_print) (simp add: print_def)
qed

text \<open>
  Claim C2, as amended. A dry run that ends leaves the world as it was. Its \<open>removed\<close>
  counter is the number of candidates that are not excluded and whose time stamp is
  before the cutoff, and its \<^verbatim>\<open>Would remove:\<close> lines name exactly these candidates. A
  second dry run of the same configuration that reads the same clock value gives the
  same result; one that reads a later clock value names at least the same paths.
\<close>

theorem dry_run_deletes_nothing:
  assumes "remove_old_files w now directory exclude_filenames days True verbose recursive
             include_hidden age_source = Inr s"
  shows "world_of s = w \<and>
         (\<exists>files. iter_files w directory recursive include_hidden = Inr files \<and>
            removed s = int (length (filter
              (to_remove w (excluded_of directory exclude_filenames) (cutoff_of now days) age_source) files)) \<and>
            would_remove s = {p \<in> set files.
              to_remove w (excluded_of directory exclude_filenames) (cutoff_of now days) age_source p}) \<and>
         remove_old_files (world_of s) now directory exclude_filenames days True verbose recursive
             include_hidden age_source = Inr s \<and>
         (now \<le> now' \<and>
          remove_old_files (world_of s) now' directory exclude_filenames days True verbose recursive
             include_hidden age_source = Inr s'
            \<longrightarrow> would_remove s \<subseteq> would_remove s')"
proof -
  note first = dry_run_sweep [OF assms]
  then have w: "world_of s = w" by simp
  have "would_remove s \<subseteq> would_remove s'"
    if le: "now \<le> now'" and
      again: "remove_old_files (world_of s) now' directory exclude_filenames days True verbose
                recursive include_hidden age_source = Inr s'"
  proof -
    from again w have "remove_old_files w now' directory exclude_filenames days True verbose
                recursive include_hidden age_source = Inr s'" by simp
    note second = dry_run_sweep [OF this]
    from le have "cutoff_of now days \<le> cutoff_of now' days" by (simp add: cutoff_of_def)
    with first second show ?thesis by (auto dest: to_remove_mono)
  qed
  with first assms w show ?thesis by simp
qed

theorem dry_run_deletes_nothing_witness:
  "\<exists>s s'. remove_old_files demo 10000000 ''/r'' [''README.md''] 30 True False False False ''mtime''
            = Inr s \<and>
          world_of s = demo \<and> removed s = 1 \<and> ''/r/a.txt'' \<in> would_remove s \<and>
          remove_old_files (world_of s) 10000000 ''/r'' [''README.md''] 30 True False False False
            ''mtime'' = Inr s \<and>
          (10000000 :: real) \<le> 13000000 \<and>
          remove_old_files (world_of s) 13000000 ''/r'' [''README.md''] 30 True False False False
            ''mtime'' = Inr s' \<and>
          would_remove s \<subseteq> would_remove s'"
proof -
  have files: "iter_files demo ''/r'' False False = Inr [''/r/a.txt'', ''/r/b.txt'', ''/r/README.md'']"
    by code_simp
  have "\<exists>s. remove_old_files demo 10000000 ''/r'' [''README.md''] 30 True False False False ''mtime''
            = Inr s \<and> removed s = 1 \<and> ''/r/a.txt'' \<in> would_remove s"
    unfolding remove_old_files_def files
    by (simp add: program_defs sweep_defs path_defs example_defs os_defs)
  then obtain s where
    run: "remove_old_files demo 10000000 ''/r'' [''README.md''] 30 True False False False ''mtime''
            = Inr s"
    and counts: "removed s = 1" "''/r/a.txt'' \<in> would_remove s"
    by blast
  have "\<exists>s'. remove_old_files demo 13000000 ''/r'' [''README.md''] 30 True False False False ''mtime''
            = Inr s'"
    unfolding remove_old_files_def files
    by (simp add: program_defs sweep_defs path_defs example_defs os_defs)
  then obtain s' where
    run': "remove_old_files demo 13000000 ''/r'' [''README.md''] 30 True False False False ''mtime''
            = Inr s'"
    by blast
  note t = dry_run_deletes_nothing [OF run, of 13000000 s']
  from t have same: "world_of s = demo" by simp
  from run same have again: "remove_old_files (world_of s) 10000000 ''/r'' [''README.md''] 30 True
      False False False ''mtime'' = Inr s" by simp
  from run' same have later: "remove_old_files (world_of s) 13000000 ''/r'' [''README.md''] 30 True
      False False False ''mtime'' = Inr s'" by simp
  with t have "would_remove s \<subseteq> would_remove s'" by simp
  with run same counts again later show ?thesis by auto
qed

text \<open>
  The claim as it is written does not say that the two sweeps read the same clock. The
  cutoff follows \<^verbatim>\<open>time.time()\<close>: on the same unchanged directory and with the same
  configuration, the sweep made when the clock reads \<open>10000000\<close> does not name
  \<^verbatim>\<open>/r/b.txt\<close>, and the sweep made when it reads \<open>13000000\<close> does.
\<close>

theorem dry_run_later_clock_counterexample:
  "\<exists>s s'. remove_old_files demo 10000000 ''/r'' [''README.md''] 30 True False False False ''mtime'' = Inr s \<and>
     world_of s = demo \<and>
     remove_old_files (world_of s) 13000000 ''/r'' [''README.md''] 30 True False False False ''mtime'' = Inr s' \<and>
     ''/r/b.txt'' \<notin> would_remove s \<and> ''/r/b.txt'' \<in> would_remove s' \<and>
     would_remove s \<noteq> would_remove s'"
proof -
  have files: "iter_files demo ''/r'' False False = Inr [''/r/a.txt'', ''/r/b.txt'', ''/r/README.md'']"
    by code_simp
  have 1: "\<exists>s. remove_old_files demo 10000000 ''/r'' [''README.md''] 30 True False False False ''mtime'' = Inr s \<and>
     world_of s = demo \<and> ''/r/b.txt'' \<notin> would_remove s"
    unfolding remove_old_files_def files
    by (simp add: program_defs sweep_defs path_defs example_defs os_defs)
  have 2: "\<exists>s'. remove_old_files demo 13000000 ''/r'' [''README.md''] 30 True False False False ''mtime'' = Inr s' \<and>
     ''/r/b.txt'' \<in> would_remove s'"
    unfolding remove_old_files_def files
    by (simp add: program_defs sweep_defs path_defs example_defs os_defs)
  from 1 2 show ?thesis by force
qed

section \<open>The paths of the candidates\<close>

subsection \<open>Joining a name to a path\<close>

text \<open>
  Joining an entry name to a path that is not empty adds one component: to the
  components of the string, to the location the kernel resolves it to, and to the
  components of its normal form.
\<close>

lemma split_sep_nonempty: "split_sep s \<noteq> []"
  by (induction s) (auto split: list.splits)

lemma split_sep_append: "split_sep (a @ CHR ''/'' # b) = split_sep a @ split_sep b"
  by (induction a) (auto split: list.splits simp: split_sep_nonempty)

lemma split_sep_plain: "CHR ''/'' \<notin> set s \<Longrightarrow> split_sep s = [s]"
  by (induction s) auto

lemma split_sep_no_sep: "x \<in> set (split_sep s) \<Longrightarrow> CHR ''/'' \<notin> set x"
  by (induction s arbitrary: x) (auto split: list.splits if_splits)

lemma startswith_sep: "startswith s ''/'' \<longleftrightarrow> (\<exists>t. s = CHR ''/'' # t)"
  by (cases s) (auto simp: startswith_def)

lemma endswith_sep: "endswith s ''/'' \<longleftrightarrow> (\<exists>t. s = t @ ''/'')"
proof
  assume "endswith s ''/''"
  then have "s \<noteq> []" "drop (length s - 1) s = ''/''" by (auto simp: endswith_def)
  then have "s = take (length s - 1) s @ ''/''"
    by (metis append_take_drop_id)
  then show "\<exists>t. s = t @ ''/''" ..
next
  assume "\<exists>t. s = t @ ''/''"
  then show "endswith s ''/''" by (auto simp: endswith_def)
qed

lemma valid_name_no_slash: "valid_name n \<Longrightarrow> \<not> startswith n ''/''"
  by (auto simp: valid_name_def startswith_sep)

lemma join_valid:
  assumes "valid_name name" "dirpath \<noteq> []"
  shows "join dirpath name = (if endswith dirpath ''/'' then dirpath @ name else dirpath @ ''/'' @ name)"
  using assms by (simp add: join_def valid_name_no_slash)

lemma join_nonempty: "dirpath \<noteq> [] \<Longrightarrow> valid_name name \<Longrightarrow> join dirpath name \<noteq> []"
  by (simp add: join_valid)

lemma join_startswith:
  "dirpath \<noteq> [] \<Longrightarrow> valid_name name \<Longrightarrow> startswith (join dirpath name) ''/'' = startswith dirpath ''/''"
  by (cases dirpath) (auto simp: join_valid startswith_def)

lemma split_sep_join:
  assumes "valid_name name" "dirpath \<noteq> []"
  shows "split_sep (join dirpath name) =
         (if endswith dirpath ''/'' then butlast (split_sep dirpath) @ [name] else split_sep dirpath @ [name])"
proof (cases "endswith dirpath ''/''")
  case True
  then obtain t where t: "dirpath = t @ ''/''" by (auto simp: endswith_sep)
  from assms have "split_sep name = [name]" by (simp add: valid_name_def split_sep_plain)
  with t True assms show ?thesis
    by (simp add: join_valid split_sep_append)
next
  case False
  from assms have "split_sep name = [name]" by (simp add: valid_name_def split_sep_plain)
  with False assms show ?thesis
    by (simp add: join_valid split_sep_append)
qed

lemma split_sep_trailing:
  "endswith dirpath ''/'' \<Longrightarrow> split_sep dirpath = butlast (split_sep dirpath) @ [[]]"
  by (auto simp: endswith_sep split_sep_append)

lemma resolve_append:
  "resolve fs l (xs @ ys) = (case resolve fs l xs of Inl e \<Rightarrow> Inl e | Inr l' \<Rightarrow> resolve fs l' ys)"
  by (induction xs arbitrary: l) (auto split: option.splits node.splits)

lemma resolve_name:
  "valid_name name \<Longrightarrow> resolve fs l [name] = Inr l' \<Longrightarrow> l' = l @ [name]"
  by (auto simp: valid_name_def split: option.splits node.splits if_splits)

lemma resolve_name_dir:
  "valid_name name \<Longrightarrow> resolve fs l [name] = Inr l' \<Longrightarrow> resolve fs l [[]] = Inr l"
  by (auto simp: valid_name_def split: option.splits node.splits if_splits)

lemma locate_join:
  assumes "dirpath \<noteq> []" "valid_name name" "locate w (join dirpath name) = Inr l'"
  shows "\<exists>l. locate w dirpath = Inr l \<and> l' = l @ [name]"
proof -
  let ?l0 = "if startswith dirpath ''/'' then [] else cwd w"
  from assms have r: "resolve (fs_root w) ?l0 (split_sep (join dirpath name)) = Inr l'"
    by (simp add: locate_def join_nonempty join_startswith)
  show ?thesis
  proof (cases "endswith dirpath ''/''")
    case True
    with r assms have "resolve (fs_root w) ?l0 (butlast (split_sep dirpath) @ [name]) = Inr l'"
      by (simp add: split_sep_join)
    then obtain l where
      a: "resolve (fs_root w) ?l0 (butlast (split_sep dirpath)) = Inr l" and
      b: "resolve (fs_root w) l [name] = Inr l'"
      by (auto simp: resolve_append split: sum.splits)
    have c: "l' = l @ [name]" "resolve (fs_root w) l [[]] = Inr l"
      using resolve_name [OF assms(2) b] resolve_name_dir [OF assms(2) b] by blast+
    from True have "split_sep dirpath = butlast (split_sep dirpath) @ [[]]" by (rule split_sep_trailing)
    then have "resolve (fs_root w) ?l0 (split_sep dirpath) =
        resolve (fs_root w) ?l0 (butlast (split_sep dirpath) @ [[]])" by simp
    also have "\<dots> = Inr l" using a c by (simp add: resolve_append)
    finally have "locate w dirpath = Inr l" using assms by (simp add: locate_def)
    with c show ?thesis by simp
  next
    case False
    with r assms have "resolve (fs_root w) ?l0 (split_sep dirpath @ [name]) = Inr l'"
      by (simp add: split_sep_join)
    then obtain l where
      a: "resolve (fs_root w) ?l0 (split_sep dirpath) = Inr l" and
      b: "resolve (fs_root w) l [name] = Inr l'"
      by (auto simp: resolve_append split: sum.splits)
    have "l' = l @ [name]" using resolve_name [OF assms(2) b] .
    moreover from a assms have "locate w dirpath = Inr l" by (simp add: locate_def)
    ultimately show ?thesis by simp
  qed
qed

lemma foldl_join_nonempty:
  "dirpath \<noteq> [] \<Longrightarrow> list_all valid_name ds \<Longrightarrow> foldl join dirpath ds \<noteq> []"
  by (induction ds arbitrary: dirpath) (auto simp: join_nonempty)

lemma locate_foldl_join:
  assumes "dirpath \<noteq> []" "list_all valid_name ds" "locate w (foldl join dirpath ds) = Inr l'"
  shows "\<exists>l. locate w dirpath = Inr l \<and> l' = l @ ds"
  using assms
proof (induction ds arbitrary: l' rule: rev_induct)
  case Nil
  then show ?case by simp
next
  case (snoc d ds)
  from snoc.prems have v: "list_all valid_name ds" "valid_name d" by simp_all
  from snoc.prems have "locate w (join (foldl join dirpath ds) d) = Inr l'" by simp
  from locate_join [OF foldl_join_nonempty [OF snoc.prems(1) v(1)] v(2) this]
  obtain l1 where "locate w (foldl join dirpath ds) = Inr l1" "l' = l1 @ [d]" by blast
  with snoc.IH [OF snoc.prems(1) v(1)] show ?case by auto
qed




lemma initial_slashes_join:
  assumes "dirpath \<noteq> []" "valid_name name"
  shows "initial_slashes (join dirpath name) = initial_slashes dirpath"
proof -
  from assms(2) obtain c cs where n: "name = c # cs" "c \<noteq> CHR ''/''"
    by (cases name) (auto simp: valid_name_def)
  show ?thesis
  proof (cases dirpath)
    case Nil
    with assms show ?thesis by simp
  next
    case (Cons a as)
    note 1 = this
    show ?thesis
    proof (cases as)
      case Nil
      with 1 n assms show ?thesis
        by (auto simp: join_valid initial_slashes_def startswith_def endswith_def)
    next
      case (Cons b bs)
      note 2 = this
      show ?thesis
      proof (cases bs)
        case Nil
        with 1 2 n assms show ?thesis
          by (auto simp: join_valid initial_slashes_def startswith_def endswith_def)
      next
        case (Cons c' cs')
        with 1 2 n assms show ?thesis
          by (auto simp: join_valid initial_slashes_def startswith_def)
      qed
    qed
  qed
qed

lemma norm_step_name: "valid_name name \<Longrightarrow> norm_step k cs name = cs @ [name]"
  by (simp add: norm_step_def valid_name_def)

lemma norm_step_empty: "norm_step k cs [] = cs"
  by (simp add: norm_step_def)

lemma norm_comps_join:
  assumes "dirpath \<noteq> []" "valid_name name"
  shows "norm_comps (join dirpath name) = norm_comps dirpath @ [name]"
proof (cases "endswith dirpath ''/''")
  case True
  let ?k = "initial_slashes dirpath"
  from True have "foldl (norm_step ?k) [] (split_sep dirpath) =
      foldl (norm_step ?k) [] (butlast (split_sep dirpath) @ [[]])"
    using split_sep_trailing by simp
  then have "foldl (norm_step ?k) [] (split_sep dirpath) =
      foldl (norm_step ?k) [] (butlast (split_sep dirpath))"
    by (simp add: norm_step_empty)
  with True assms show ?thesis
    by (simp add: norm_comps_def initial_slashes_join split_sep_join norm_step_name)
next
  case False
  with assms show ?thesis
    by (simp add: norm_comps_def initial_slashes_join split_sep_join norm_step_name)
qed



subsection \<open>What the walk yields\<close>

lemma wf_lookup: "wf_node fs \<Longrightarrow> lookup fs l = Some n \<Longrightarrow> wf_node n"
proof (induction fs l rule: lookup.induct)
  case (1 n)
  then show ?case by simp
next
  case (2 st m es c cs)
  from "2.prems" obtain sub where sub: "map_of es c = Some sub" "lookup sub cs = Some n"
    by (auto split: option.splits)
  then have "(c, sub) \<in> set es" by (simp add: map_of_SomeD)
  with "2.prems" have "wf_node sub" by (auto simp: list_all_iff)
  with 2 sub show ?case by simp
qed simp_all

lemma walk_shape:
  assumes "wf_node n" "(rp, dirs, files) \<in> set (walk keep dirpath n)"
  shows "\<exists>ds. rp = foldl join dirpath ds \<and> list_all valid_name ds \<and> list_all keep ds \<and>
              list_all valid_name files"
  using assms
proof (induction keep dirpath n arbitrary: rp dirs files rule: walk.induct)
  case (1 keep dirpath st m es)
  from "1.prems" have wf: "\<forall>e \<in> set es. valid_name (fst e) \<and> wf_node (snd e)"
    by (simp add: list_all_iff)
  from "1.prems" have r: "readable m" by (auto split: if_splits)
  from "1.prems" r consider
    (here) "rp = dirpath" "files = map fst (filter (\<lambda>e. \<not> is_dir (snd e)) es)" |
    (below) e where "e \<in> set es" "searchable m" "is_dir (snd e)" "keep (fst e)"
       "(rp, dirs, files) \<in> set (walk keep (join dirpath (fst e)) (snd e))"
    by (auto split: if_splits)
  then show ?case
  proof cases
    case here
    with wf have "rp = foldl join dirpath [] \<and> list_all valid_name [] \<and> list_all keep [] \<and>
        list_all valid_name files"
      by (auto simp: list_all_iff)
    then show ?thesis by blast
  next
    case below
    from wf below have "wf_node (snd e)" "valid_name (fst e)" by auto
    from "1.IH" [OF _ below(2) below(1) _ this(1) below(5)] r below
    obtain ds where "rp = foldl join (join dirpath (fst e)) ds" "list_all valid_name ds"
      "list_all keep ds" "list_all valid_name files" by auto
    with below \<open>valid_name (fst e)\<close>
    have "rp = foldl join dirpath (fst e # ds) \<and> list_all valid_name (fst e # ds) \<and>
        list_all keep (fst e # ds) \<and> list_all valid_name files" by simp
    then show ?thesis by blast
  qed
qed simp_all


lemma os_stat_nonempty: "os_stat w p = Inr n \<Longrightarrow> p \<noteq> []"
  by (auto simp: os_stat_def locate_def)

lemma wf_os_stat: "wf_node (fs_root w) \<Longrightarrow> os_stat w p = Inr n \<Longrightarrow> wf_node n"
  by (auto simp: os_stat_def split: sum.splits option.splits dest: wf_lookup)

lemma iter_files_shape:
  assumes wf: "wf_node (fs_root w)"
    and files: "iter_files w directory recursive include_hidden = Inr files"
    and p: "p \<in> set files"
  shows "directory \<noteq> [] \<and>
         (\<exists>ds name. p = join (foldl join directory ds) name \<and> list_all valid_name ds \<and>
            valid_name name \<and>
            (\<not> recursive \<longrightarrow> ds = [] \<and> isfile w p \<and>
               (\<exists>names. listdir w directory = Inr names \<and> name \<in> set names)) \<and>
            (\<not> include_hidden \<longrightarrow> \<not> is_hidden w directory p \<and>
               list_all (\<lambda>d. \<not> startswith d ''.'') ds))"
proof (cases recursive)
  case False
  with files obtain names where names: "listdir w directory = Inr names"
    by (auto simp: iter_files_def split: sum.splits)
  then obtain st m es where dir: "os_stat w directory = Inr (Dir st m es)" "names = map fst es"
    by (auto simp: listdir_def split: sum.splits node.splits if_splits)
  from wf_os_stat [OF wf dir(1)] dir(2) have v: "\<forall>name \<in> set names. valid_name name"
    by (auto simp: list_all_iff)
  from files False names p obtain name where
    name: "name \<in> set names" "p = join directory name" "isfile w p"
      "\<not> (\<not> include_hidden \<and> is_hidden w directory p)"
    by (auto simp: iter_files_def Let_def split: if_splits)
  with v names have "p = join (foldl join directory []) name \<and> list_all valid_name [] \<and>
            valid_name name \<and>
            (\<not> recursive \<longrightarrow> [] = ([] :: string list) \<and> isfile w p \<and>
               (\<exists>names. listdir w directory = Inr names \<and> name \<in> set names)) \<and>
            (\<not> include_hidden \<longrightarrow> \<not> is_hidden w directory p \<and>
               list_all (\<lambda>d. \<not> startswith d ''.'') [])"
    by auto
  with os_stat_nonempty [OF dir(1)] show ?thesis by blast
next
  case True
  let ?keep = "\<lambda>d. include_hidden \<or> \<not> startswith d ''.''"
  from files True p obtain rp dirs fs name where
    t: "(rp, dirs, fs) \<in> set (os_walk w ?keep directory)" and
    name: "name \<in> set fs" "p = join rp name" "\<not> (\<not> include_hidden \<and> is_hidden w directory p)"
    by (auto simp: iter_files_def Let_def split: if_splits)
  from t obtain n where n: "os_stat w directory = Inr n" "(rp, dirs, fs) \<in> set (walk ?keep directory n)"
    by (cases "os_stat w directory") (auto simp: os_walk_def)
  from walk_shape [OF wf_os_stat [OF wf n(1)] n(2)] obtain ds where
    ds: "rp = foldl join directory ds" "list_all valid_name ds" "list_all ?keep ds"
      "list_all valid_name fs" by blast
  with name True have "p = join (foldl join directory ds) name \<and> list_all valid_name ds \<and>
            valid_name name \<and>
            (\<not> recursive \<longrightarrow> ds = [] \<and> isfile w p \<and>
               (\<exists>names. listdir w directory = Inr names \<and> name \<in> set names)) \<and>
            (\<not> include_hidden \<longrightarrow> \<not> is_hidden w directory p \<and>
               list_all (\<lambda>d. \<not> startswith d ''.'') ds)"
    by (auto simp: list_all_iff)
  with os_stat_nonempty [OF n(1)] show ?thesis by blast
qed

lemma iter_files_locate:
  assumes wf: "wf_node (fs_root w)"
    and files: "iter_files w directory recursive include_hidden = Inr files"
    and p: "p \<in> set files" and l: "locate w p = Inr l"
  shows "\<exists>l0 ds name. locate w directory = Inr l0 \<and> l = l0 @ ds @ [name] \<and>
           p = join (foldl join directory ds) name \<and> list_all valid_name ds \<and> valid_name name \<and>
           (\<not> recursive \<longrightarrow> ds = [])"
proof -
  from iter_files_shape [OF wf files p] obtain ds name where
    d: "directory \<noteq> []" and s: "p = join (foldl join directory ds) name" "list_all valid_name ds"
      "valid_name name" "\<not> recursive \<longrightarrow> ds = []" by blast
  from l s have "locate w (join (foldl join directory ds) name) = Inr l" by simp
  from locate_join [OF foldl_join_nonempty [OF d s(2)] s(3) this] obtain l1 where
    l1: "locate w (foldl join directory ds) = Inr l1" "l = l1 @ [name]" by blast
  from locate_foldl_join [OF d s(2) l1(1)] obtain l0 where
    "locate w directory = Inr l0" "l1 = l0 @ ds" by blast
  with l1 s show ?thesis by auto
qed

lemma iter_files_inj:
  assumes wf: "wf_node (fs_root w)"
    and files: "iter_files w directory recursive include_hidden = Inr files"
    and p: "p \<in> set files" and q: "q \<in> set files"
    and l: "locate w p = Inr l" "locate w q = Inr l"
  shows "p = q"
proof -
  from iter_files_locate [OF wf files p l(1)] obtain l0 ds name where
    a: "locate w directory = Inr l0" "l = l0 @ ds @ [name]" "p = join (foldl join directory ds) name"
    by blast
  from iter_files_locate [OF wf files q l(2)] obtain l0' ds' name' where
    b: "locate w directory = Inr l0'" "l = l0' @ ds' @ [name']"
      "q = join (foldl join directory ds') name'"
    by blast
  from a b have "l0 = l0'" by simp
  with a b have "ds @ [name] = ds' @ [name']" by simp
  then have "ds = ds'" "name = name'" by simp_all
  with a b show ?thesis by simp
qed

subsection \<open>The path relative to the root\<close>

lemma endswith_last: "endswith s ''/'' \<longleftrightarrow> s \<noteq> [] \<and> last s = CHR ''/''"
  by (auto simp: endswith_sep) (metis append_butlast_last_id)

lemma join_relative:
  assumes "a \<noteq> []" "b \<noteq> []" "\<not> startswith b ''/''"
  shows "join a b = (if endswith a ''/'' then a @ b else a @ ''/'' @ b)"
  using assms by (simp add: join_def)

lemma join_assoc:
  assumes "g \<noteq> []" "dirpath \<noteq> []" "\<not> startswith dirpath ''/''" "valid_name name"
  shows "join g (join dirpath name) = join (join g dirpath) name"
proof -
  from assms have 1: "join dirpath name \<noteq> []" "\<not> startswith (join dirpath name) ''/''"
    by (simp_all add: join_nonempty join_startswith)
  from assms have 2: "join g dirpath \<noteq> []"
    by (simp add: join_relative)
  from assms have 3: "endswith (join g dirpath) ''/'' = endswith dirpath ''/''"
    by (auto simp: join_relative endswith_last)
  from assms 1 2 3 show ?thesis
    by (simp add: join_relative join_valid)
qed

lemma split_sep_slashes: "split_sep (replicate k CHR ''/'' @ s) = replicate k [] @ split_sep s"
  by (induction k) simp_all

lemma join_sep_cons: "ws \<noteq> [] \<Longrightarrow> join_sep (w # ws) = w @ CHR ''/'' # join_sep ws"
  by (cases ws) simp_all

lemma split_join_sep:
  "cs \<noteq> [] \<Longrightarrow> \<forall>c \<in> set cs. CHR ''/'' \<notin> set c \<Longrightarrow> split_sep (join_sep cs) = cs"
proof (induction cs)
  case Nil
  then show ?case by simp
next
  case (Cons w ws)
  show ?case
  proof (cases ws)
    case Nil
    with Cons.prems show ?thesis by (simp add: split_sep_plain)
  next
    case (Cons v vs)
    with Cons.prems Cons.IH show ?thesis
      by (simp add: join_sep_cons split_sep_append split_sep_plain del: join_sep.simps)
  qed
qed

lemma norm_step_good:
  assumes "\<forall>c \<in> set acc. c \<noteq> [] \<and> CHR ''/'' \<notin> set c" "CHR ''/'' \<notin> set x"
  shows "\<forall>c \<in> set (norm_step k acc x). c \<noteq> [] \<and> CHR ''/'' \<notin> set c"
  using assms by (auto simp: norm_step_def dest: in_set_butlastD)

lemma foldl_norm_step_good:
  assumes "\<forall>c \<in> set acc. c \<noteq> [] \<and> CHR ''/'' \<notin> set c" "\<forall>x \<in> set xs. CHR ''/'' \<notin> set x"
  shows "\<forall>c \<in> set (foldl (norm_step k) acc xs). c \<noteq> [] \<and> CHR ''/'' \<notin> set c"
  using assms
proof (induction xs arbitrary: acc)
  case Nil
  then show ?case by simp
next
  case (Cons x xs)
  from Cons.prems have "\<forall>c \<in> set (norm_step k acc x). c \<noteq> [] \<and> CHR ''/'' \<notin> set c"
    by (intro norm_step_good) simp_all
  from Cons.IH [OF this] Cons.prems show ?case by simp
qed

lemma norm_comps_good: "\<forall>c \<in> set (norm_comps x). c \<noteq> [] \<and> CHR ''/'' \<notin> set c"
  unfolding norm_comps_def
  by (rule foldl_norm_step_good) (auto dest: split_sep_no_sep)

lemma comps_of_normpath:
  assumes "startswith x ''/''"
  shows "filter (\<lambda>c. c \<noteq> []) (split_sep (normpath x)) = norm_comps x"
proof -
  from assms have x: "x \<noteq> []" "initial_slashes x \<noteq> 0"
    by (auto simp: initial_slashes_def startswith_def)
  then have n: "normpath x = replicate (initial_slashes x) CHR ''/'' @ join_sep (norm_comps x)"
    by (simp add: normpath_def Let_def)
  show ?thesis
  proof (cases "norm_comps x = []")
    case True
    with n split_sep_slashes [of "initial_slashes x" "[]"] show ?thesis by simp
  next
    case False
    from split_join_sep [OF False] norm_comps_good [of x]
    have "split_sep (join_sep (norm_comps x)) = norm_comps x" by blast
    with n norm_comps_good [of x] show ?thesis
      by (simp add: split_sep_slashes filter_id_conv)
  qed
qed

lemma getcwd_absolute: "getcwd wd \<noteq> [] \<and> startswith (getcwd wd) ''/''"
  by (simp add: getcwd_def startswith_def)

lemma abspath_comps:
  "filter (\<lambda>c. c \<noteq> []) (split_sep (abspath wd p)) =
   norm_comps (if startswith p ''/'' then p else join (getcwd wd) p)"
proof (cases "startswith p ''/''")
  case True
  then show ?thesis by (simp add: abspath_def comps_of_normpath)
next
  case False
  have "startswith (join (getcwd wd) p) ''/''"
    using False getcwd_absolute [of wd]
    by (cases "getcwd wd") (auto simp: join_def startswith_def)
  with False show ?thesis by (simp add: abspath_def comps_of_normpath)
qed

lemma abspath_comps_join:
  assumes "dirpath \<noteq> []" "valid_name name"
  shows "filter (\<lambda>c. c \<noteq> []) (split_sep (abspath wd (join dirpath name))) =
         filter (\<lambda>c. c \<noteq> []) (split_sep (abspath wd dirpath)) @ [name]"
proof (cases "startswith dirpath ''/''")
  case True
  with assms show ?thesis
    by (simp add: abspath_comps join_startswith norm_comps_join)
next
  case False
  from assms False have "join (getcwd wd) dirpath \<noteq> []"
    using getcwd_absolute [of wd] by (simp add: join_relative)
  with assms False show ?thesis
    using getcwd_absolute [of wd]
    by (simp add: abspath_comps join_startswith join_assoc norm_comps_join)
qed

lemma abspath_comps_foldl_join:
  assumes "dirpath \<noteq> []" "list_all valid_name ds"
  shows "filter (\<lambda>c. c \<noteq> []) (split_sep (abspath wd (foldl join dirpath ds))) =
         filter (\<lambda>c. c \<noteq> []) (split_sep (abspath wd dirpath)) @ ds"
  using assms
proof (induction ds rule: rev_induct)
  case Nil
  then show ?case by simp
next
  case (snoc d ds)
  then have "foldl join dirpath ds \<noteq> []" by (simp add: foldl_join_nonempty)
  with snoc show ?case by (simp add: abspath_comps_join)
qed

lemma commonprefix_append: "commonprefix xs (xs @ ys) = xs"
  by (induction xs) simp_all

lemma valid_name_not_endswith: "valid_name n \<Longrightarrow> \<not> endswith n ''/''"
proof
  assume v: "valid_name n" and "endswith n ''/''"
  then have "n \<noteq> []" "last n = CHR ''/''" by (simp_all add: endswith_last)
  then have "CHR ''/'' \<in> set n" by (metis last_in_set)
  with v show False by (simp add: valid_name_def)
qed

lemma foldl_join_sep:
  assumes "a \<noteq> []" "\<not> endswith a ''/''" "list_all valid_name ws"
  shows "foldl join a ws = join_sep (a # ws)"
  using assms
proof (induction ws arbitrary: a)
  case Nil
  then show ?case by simp
next
  case (Cons w ws)
  from Cons.prems have j: "join a w = a @ ''/'' @ w" by (simp add: join_valid)
  from Cons.prems have "w \<noteq> []" "\<not> endswith w ''/''"
    by (auto simp: valid_name_def valid_name_not_endswith)
  then have "join a w \<noteq> []" "\<not> endswith (join a w) ''/''"
    by (auto simp: j endswith_last)
  from Cons.IH [OF this] Cons.prems have "foldl join (join a w) ws = join_sep (join a w # ws)"
    by simp
  then show ?case by (cases ws) (simp_all add: j)
qed

lemma relpath_below:
  assumes "directory \<noteq> []" "list_all valid_name ds" "valid_name name"
  shows "split_sep (relpath wd (join (foldl join directory ds) name) directory) = ds @ [name]"
proof -
  let ?start = "filter (\<lambda>c. c \<noteq> []) (split_sep (abspath wd directory))"
  have path: "filter (\<lambda>c. c \<noteq> []) (split_sep (abspath wd (join (foldl join directory ds) name)))
      = ?start @ ds @ [name]"
    using assms by (simp add: abspath_comps_join abspath_comps_foldl_join foldl_join_nonempty)
  let ?rel = "ds @ [name]"
  have v: "list_all valid_name ?rel" using assms by simp
  note e = valid_name_not_endswith
  from v have "valid_name (hd ?rel)" "list_all valid_name (tl ?rel)"
    by (cases ds; simp)+
  with e have hd: "hd ?rel \<noteq> []" "\<not> endswith (hd ?rel) ''/''" "list_all valid_name (tl ?rel)"
    by (auto simp: valid_name_def)
  have "relpath wd (join (foldl join directory ds) name) directory =
      foldl join (hd ?rel) (tl ?rel)"
    by (simp add: relpath_def path commonprefix_append Let_def)
  also have "\<dots> = join_sep (hd ?rel # tl ?rel)" using hd by (rule foldl_join_sep)
  also have "\<dots> = join_sep ?rel" by simp
  finally have "relpath wd (join (foldl join directory ds) name) directory = join_sep ?rel" .
  moreover have "split_sep (join_sep ?rel) = ?rel"
    using v by (intro split_join_sep) (auto simp: list_all_iff valid_name_def)
  ultimately show ?thesis by simp
qed

section \<open>What is enumerated\<close>

text \<open>
  Claim C4. Without \<^verbatim>\<open>include_hidden\<close>, in both modes, no segment of a yielded path
  relative to the root directory starts with a dot. The segments are the names of the
  directories the walk went through below the root directory, followed by the name of
  the file: none of the directories starts with a dot, and neither does the file.
\<close>

theorem hidden_paths_are_not_yielded:
  assumes "wf_node (fs_root w)"
    and "iter_files w directory recursive False = Inr files"
    and "p \<in> set files"
  shows "(\<forall>part \<in> set (split_sep (relpath (cwd w) p directory)). \<not> startswith part ''.'') \<and>
         (\<exists>ds name. p = join (foldl join directory ds) name \<and>
            split_sep (relpath (cwd w) p directory) = ds @ [name] \<and>
            (\<forall>d \<in> set ds. \<not> startswith d ''.'') \<and> \<not> startswith name ''.'')"
proof -
  from iter_files_shape [OF assms] obtain ds name where
    d: "directory \<noteq> []" and
    s: "p = join (foldl join directory ds) name" "list_all valid_name ds" "valid_name name"
      "\<not> is_hidden w directory p" "list_all (\<lambda>d. \<not> startswith d ''.'') ds"
    by auto
  from relpath_below [OF d s(2) s(3), of "cwd w"] s(1)
  have r: "split_sep (relpath (cwd w) p directory) = ds @ [name]" by simp
  from s(4) have h: "\<forall>part \<in> set (split_sep (relpath (cwd w) p directory)). \<not> startswith part ''.''"
    by (simp add: is_hidden_def list_ex_iff)
  with r have "\<not> startswith name ''.''" by simp
  with s r h show ?thesis by (auto simp: list_all_iff)
qed

theorem hidden_paths_are_not_yielded_witness:
  "wf_node (fs_root demo) \<and>
   iter_files demo ''/r'' True False =
     Inr [''/r/a.txt'', ''/r/b.txt'', ''/r/README.md'', ''/r/sub/README.md'', ''/r/sub/old2.txt''] \<and>
   ''/r/sub/old2.txt'' \<in>
     set [''/r/a.txt'', ''/r/b.txt'', ''/r/README.md'', ''/r/sub/README.md'', ''/r/sub/old2.txt''] \<and>
   split_sep (relpath (cwd demo) ''/r/sub/old2.txt'' ''/r'') = [''sub'', ''old2.txt''] \<and>
   \<not> list_ex (\<lambda>part. startswith part ''.'')
       (split_sep (relpath (cwd demo) ''/r/sub/old2.txt'' ''/r'')) \<and>
   lookup (fs_root demo) [''r'', ''sub'', ''.hidden'', ''old.txt''] = Some (File (stamp 6544000)) \<and>
   ''/r/sub/.hidden/old.txt'' \<notin>
     set [''/r/a.txt'', ''/r/b.txt'', ''/r/README.md'', ''/r/sub/README.md'', ''/r/sub/old2.txt'']"
proof -
  have wf: "wf_node (fs_root demo)"
    by (simp add: example_defs valid_name_def)
  have files: "iter_files demo ''/r'' True False =
     Inr [''/r/a.txt'', ''/r/b.txt'', ''/r/README.md'', ''/r/sub/README.md'', ''/r/sub/old2.txt'']"
    by code_simp
  have p: "''/r/sub/old2.txt'' \<in>
     set [''/r/a.txt'', ''/r/b.txt'', ''/r/README.md'', ''/r/sub/README.md'', ''/r/sub/old2.txt'']"
    by simp
  have r: "split_sep (relpath (cwd demo) ''/r/sub/old2.txt'' ''/r'') = [''sub'', ''old2.txt'']"
    by code_simp
  have l: "lookup (fs_root demo) [''r'', ''sub'', ''.hidden'', ''old.txt''] = Some (File (stamp 6544000))"
    by (simp add: example_defs)
  from hidden_paths_are_not_yielded [OF wf files p]
  have "\<forall>part \<in> set (split_sep (relpath (cwd demo) ''/r/sub/old2.txt'' ''/r'')). \<not> startswith part ''.''"
    by blast
  then have "\<not> list_ex (\<lambda>part. startswith part ''.'')
       (split_sep (relpath (cwd demo) ''/r/sub/old2.txt'' ''/r''))"
    by (simp add: list_ex_iff)
  with wf files p r l show ?thesis by simp
qed

section \<open>What a sweep deletes\<close>

subsection \<open>Deleting one file\<close>

lemma map_of_filter_fst:
  "map_of (filter (\<lambda>e. fst e \<noteq> c) es) k = (if k = c then None else map_of es k)"
  by (induction es) auto

lemma map_of_map_entry:
  "map_of (map (\<lambda>e. if fst e = c then (fst e, f (snd e)) else e) es) k =
   (if k = c then map_option f (map_of es c) else map_of es k)"
  by (induction es) auto

lemma lookup_below_file: "\<not> is_dir n \<Longrightarrow> cs \<noteq> [] \<Longrightarrow> lookup n cs = None"
  by (cases n; cases cs) simp_all

lemma peek_delete_at:
  assumes "l0 \<noteq> []" "lookup fs l0 = Some n" "\<not> is_dir n"
  shows "peek (delete_at l0 fs) l = (if l = l0 then None else peek fs l)"
  using assms
proof (induction l0 fs arbitrary: l rule: delete_at.induct)
  case (1 n')
  then show ?case by simp
next
  case (2 c st m es)
  from "2.prems" have c: "map_of es c = Some n" by (auto split: option.splits)
  show ?case
  proof (cases l)
    case Nil
    then show ?thesis by (simp add: peek_def)
  next
    case (Cons k ks)
    with c "2.prems" show ?thesis
      by (cases ks) (auto simp: peek_def map_of_filter_fst lookup_below_file)
  qed
next
  case (3 c v va st m es)
  from "3.prems" obtain sub where sub: "map_of es c = Some sub" "lookup sub (v # va) = Some n"
    by (auto split: option.splits)
  then have e: "(c, sub) \<in> set es" by (simp add: map_of_SomeD)
  have IH: "peek (delete_at (v # va) sub) ks = (if ks = v # va then None else peek sub ks)" for ks
    using "3.IH" [of "(c, sub)" ks] e sub "3.prems" by simp
  show ?case
  proof (cases l)
    case Nil
    then show ?thesis by (simp add: peek_def)
  next
    case (Cons k ks)
    with sub IH [of ks] show ?thesis
      by (auto simp: peek_def map_of_map_entry)
  qed
qed simp_all


lemma peek_Dir:
  "peek fs l = Some (Dir st m es) \<longleftrightarrow> es = [] \<and> (\<exists>es'. lookup fs l = Some (Dir st m es'))"
  by (cases "lookup fs l"; cases "the (lookup fs l)") (auto simp: peek_def)

lemma resolve_peek:
  "resolve fs loc (c # cs) =
     (case peek fs loc of
        None \<Rightarrow> Inl FileNotFoundError
      | Some (Dir st m es) \<Rightarrow>
          if c = [] then resolve fs loc cs
          else if \<not> searchable m then Inl PermissionError
          else if c = ''.'' then resolve fs loc cs
          else if c = ''..'' then resolve fs (butlast loc) cs
          else resolve fs (loc @ [c]) cs
      | Some _ \<Rightarrow> Inl NotADirectoryError)"
  by (cases "lookup fs loc"; cases "the (lookup fs loc)") (auto simp: peek_def)

lemma resolve_gone:
  assumes "\<forall>l. peek fs' l = (if l \<in> D then None else peek fs l)"
    and "\<forall>l \<in> D. \<exists>n. lookup fs l = Some n \<and> \<not> is_dir n"
  shows "resolve fs' loc cs = Inr l \<longleftrightarrow> resolve fs loc cs = Inr l"
proof (induction cs arbitrary: loc)
  case Nil
  then show ?case by simp
next
  case (Cons c cs)
  show ?case
  proof (cases "loc \<in> D")
    case True
    with assms obtain n where "lookup fs loc = Some n" "\<not> is_dir n" by blast
    then have "resolve fs loc (c # cs) = Inl NotADirectoryError"
      by (cases n) simp_all
    moreover from True assms have "resolve fs' loc (c # cs) = Inl FileNotFoundError"
      by (simp add: resolve_peek del: resolve.simps)
    ultimately show ?thesis by simp
  next
    case False
    with assms have "peek fs' loc = peek fs loc" by simp
    with Cons show ?thesis
      by (simp add: resolve_peek del: resolve.simps split: option.splits node.splits)
  qed
qed

lemma locate_gone:
  assumes "gone w w' D"
  shows "locate w' p = Inr l \<longleftrightarrow> locate w p = Inr l"
proof -
  from assms have a: "\<forall>l. peek (fs_root w') l = (if l \<in> D then None else peek (fs_root w) l)"
    and b: "\<forall>l \<in> D. \<exists>n. lookup (fs_root w) l = Some n \<and> \<not> is_dir n"
    and c: "cwd w' = cwd w"
    by (simp_all add: gone_def)
  show ?thesis
    unfolding locate_def c by (simp add: resolve_gone [OF a b])
qed


lemma node_stat_entry_info: "node_stat (entry_info n) = node_stat n"
  by (cases n) simp_all

lemma os_stat_locate:
  "os_stat w p = Inr n \<longleftrightarrow> (\<exists>l. locate w p = Inr l \<and> lookup (fs_root w) l = Some n)"
  by (auto simp: os_stat_def split: sum.splits option.splits)

lemma os_stat_gone:
  assumes "gone w w' D"
  shows "(\<exists>n'. os_stat w' p = Inr n' \<and> entry_info n' = i) \<longleftrightarrow>
         (\<exists>n l. os_stat w p = Inr n \<and> entry_info n = i \<and> locate w p = Inr l \<and> l \<notin> D)"
proof -
  from assms have a: "peek (fs_root w') l = (if l \<in> D then None else peek (fs_root w) l)" for l
    by (simp add: gone_def)
  have "(\<exists>n'. os_stat w' p = Inr n' \<and> entry_info n' = i) \<longleftrightarrow>
        (\<exists>l. locate w' p = Inr l \<and> peek (fs_root w') l = Some i)"
    by (auto simp: os_stat_locate peek_def)
  also have "\<dots> \<longleftrightarrow> (\<exists>l. locate w p = Inr l \<and> l \<notin> D \<and> peek (fs_root w) l = Some i)"
    by (auto simp: locate_gone [OF assms] a)
  also have "\<dots> \<longleftrightarrow> (\<exists>n l. os_stat w p = Inr n \<and> entry_info n = i \<and> locate w p = Inr l \<and> l \<notin> D)"
    by (auto simp: os_stat_locate peek_def)
  finally show ?thesis .
qed

lemma os_stat_gone_Inr:
  assumes "gone w w' D" "os_stat w' p = Inr n'"
  shows "\<exists>n l. os_stat w p = Inr n \<and> entry_info n = entry_info n' \<and> locate w p = Inr l \<and> l \<notin> D"
  using os_stat_gone [OF assms(1), of p "entry_info n'"] assms(2) by blast

lemma os_stat_gone_keep:
  assumes "gone w w' D" "os_stat w p = Inr n" "locate w p = Inr l" "l \<notin> D"
  shows "\<exists>n'. os_stat w' p = Inr n' \<and> entry_info n' = entry_info n"
  using os_stat_gone [OF assms(1), of p "entry_info n"] assms(2-) by blast

lemma getmtime_stat:
  "getmtime w p = Inr t \<longleftrightarrow> (\<exists>n. os_stat w p = Inr n \<and> st_mtime (node_stat (entry_info n)) = t)"
  "getatime w p = Inr t \<longleftrightarrow> (\<exists>n. os_stat w p = Inr n \<and> st_atime (node_stat (entry_info n)) = t)"
  "getctime w p = Inr t \<longleftrightarrow> (\<exists>n. os_stat w p = Inr n \<and> st_ctime (node_stat (entry_info n)) = t)"
  by (auto simp: getmtime_def getatime_def getctime_def node_stat_entry_info split: sum.splits)


lemma stat_field_gone:
  assumes "gone w w' D"
  shows "(\<exists>n'. os_stat w' p = Inr n' \<and> f (node_stat (entry_info n')) = t) \<longleftrightarrow>
         (\<exists>n. os_stat w p = Inr n \<and> f (node_stat (entry_info n)) = t) \<and>
         (\<exists>l. locate w p = Inr l \<and> l \<notin> D)"
proof
  assume "\<exists>n'. os_stat w' p = Inr n' \<and> f (node_stat (entry_info n')) = t"
  then obtain n' where n': "os_stat w' p = Inr n'" "f (node_stat (entry_info n')) = t" by blast
  from os_stat_gone_Inr [OF assms n'(1)] obtain n l where
    "os_stat w p = Inr n" "entry_info n = entry_info n'" "locate w p = Inr l" "l \<notin> D" by blast
  with n'(2) show "(\<exists>n. os_stat w p = Inr n \<and> f (node_stat (entry_info n)) = t) \<and>
         (\<exists>l. locate w p = Inr l \<and> l \<notin> D)" by auto
next
  assume "(\<exists>n. os_stat w p = Inr n \<and> f (node_stat (entry_info n)) = t) \<and>
         (\<exists>l. locate w p = Inr l \<and> l \<notin> D)"
  then obtain n l where n: "os_stat w p = Inr n" "f (node_stat (entry_info n)) = t"
    "locate w p = Inr l" "l \<notin> D" by blast
  from os_stat_gone_keep [OF assms n(1) n(3) n(4)] obtain n' where
    "os_stat w' p = Inr n'" "entry_info n' = entry_info n" by blast
  with n(2) show "\<exists>n'. os_stat w' p = Inr n' \<and> f (node_stat (entry_info n')) = t" by auto
qed

lemma getmtime_gone:
  assumes "gone w w' D"
  shows "getmtime w' p = Inr t \<longleftrightarrow> getmtime w p = Inr t \<and> (\<exists>l. locate w p = Inr l \<and> l \<notin> D)"
    and "getatime w' p = Inr t \<longleftrightarrow> getatime w p = Inr t \<and> (\<exists>l. locate w p = Inr l \<and> l \<notin> D)"
    and "getctime w' p = Inr t \<longleftrightarrow> getctime w p = Inr t \<and> (\<exists>l. locate w p = Inr l \<and> l \<notin> D)"
  unfolding getmtime_stat by (rule stat_field_gone [OF assms])+

lemma get_timestamp_gone_Inr:
  assumes "gone w w' D" "get_timestamp w' p source = Inr t"
  shows "get_timestamp w p source = Inr t"
proof -
  from assms(1) have g: "git_log w' = git_log w" by (simp add: gone_def)
  then have "git_last_commit_timestamp w' p = git_last_commit_timestamp w p"
    by (simp add: git_last_commit_timestamp_def)
  with assms(2) show ?thesis
    by (auto simp: get_timestamp_def getmtime_gone [OF assms(1)] split: if_splits option.splits)
qed

lemma get_timestamp_gone_keep:
  assumes "gone w w' D" "get_timestamp w p source = Inr t" "\<forall>l. locate w p = Inr l \<longrightarrow> l \<notin> D"
  shows "get_timestamp w' p source = Inr t"
proof -
  from assms(1) have g: "git_log w' = git_log w" by (simp add: gone_def)
  then have gl: "git_last_commit_timestamp w' p = git_last_commit_timestamp w p"
    by (simp add: git_last_commit_timestamp_def)
  have l: "\<exists>l. locate w p = Inr l" if "getmtime w p = Inr t \<or> getatime w p = Inr t \<or> getctime w p = Inr t"
    using that by (auto simp: getmtime_stat os_stat_locate)
  from assms(2,3) l show ?thesis
    by (auto simp: get_timestamp_def gl getmtime_gone [OF assms(1)] split: if_splits option.splits)
qed


lemma peek_file:
  "\<not> is_dir n \<Longrightarrow> peek fs l = Some n \<longleftrightarrow> lookup fs l = Some n"
  by (cases "lookup fs l"; cases "the (lookup fs l)"; cases n) (auto simp: peek_def)

lemma os_remove_Inr:
  "os_remove w p = Inr w'' \<longleftrightarrow>
   (\<exists>l n st m es. locate w p = Inr l \<and> lookup (fs_root w) l = Some n \<and> \<not> is_dir n \<and>
      lookup (fs_root w) (butlast l) = Some (Dir st m es) \<and> writable m \<and>
      w'' = w\<lparr>fs_root := delete_at l (fs_root w)\<rparr>)"
  by (cases "locate w p") (auto simp: os_remove_def split: option.splits node.splits)

lemma os_remove_gone_step:
  assumes g: "gone w w' D" and r: "os_remove w' p = Inr w''"
  shows "\<exists>l. locate w p = Inr l \<and> l \<notin> D \<and> gone w w'' (insert l D)"
proof -
  from g have pk: "peek (fs_root w') k = (if k \<in> D then None else peek (fs_root w) k)" for k
    by (simp add: gone_def)
  from r obtain l n st m es where
    l: "locate w' p = Inr l" and n: "lookup (fs_root w') l = Some n" "\<not> is_dir n" and
    d: "lookup (fs_root w') (butlast l) = Some (Dir st m es)" and
    w'': "w'' = w'\<lparr>fs_root := delete_at l (fs_root w')\<rparr>"
    by (auto simp: os_remove_Inr)
  from l g have l0: "locate w p = Inr l" by (simp add: locate_gone)
  from n have pn: "peek (fs_root w') l = Some n" by (simp add: peek_file)
  with pk [of l] have nd: "l \<notin> D" and "peek (fs_root w) l = Some n"
    by (auto split: if_splits)
  with n have n0: "lookup (fs_root w) l = Some n" by (simp add: peek_file)
  from n d have ne: "l \<noteq> []" by (cases l) auto
  have "peek (fs_root w'') k = (if k \<in> insert l D then None else peek (fs_root w) k)" for k
    using peek_delete_at [OF ne n, of k] pk [of k] by (simp add: w'')
  moreover from g n0 n have "\<forall>k \<in> insert l D. \<exists>n. lookup (fs_root w) k = Some n \<and> \<not> is_dir n"
    by (auto simp: gone_def)
  moreover from g have "cwd w'' = cwd w" "git_log w'' = git_log w"
    by (simp_all add: w'' gone_def)
  ultimately have "gone w w'' (insert l D)" by (simp add: gone_def)
  with l0 nd show ?thesis by blast
qed

lemma os_remove_gone_ok:
  assumes g: "gone w w' D" and r: "os_remove w p = Inr w1" and l: "locate w p = Inr l" "l \<notin> D"
  shows "\<exists>w''. os_remove w' p = Inr w''"
proof -
  from g have pk: "peek (fs_root w') k = (if k \<in> D then None else peek (fs_root w) k)" for k
    by (simp add: gone_def)
  from r l obtain n st m es where
    n: "lookup (fs_root w) l = Some n" "\<not> is_dir n" and
    d: "lookup (fs_root w) (butlast l) = Some (Dir st m es)" "writable m"
    by (auto simp: os_remove_Inr)
  from g d have "butlast l \<notin> D" by (auto simp: gone_def)
  with pk [of "butlast l"] d have "peek (fs_root w') (butlast l) = Some (Dir st m [])"
    by (simp add: peek_def)
  then obtain es' where d': "lookup (fs_root w') (butlast l) = Some (Dir st m es')"
    by (auto simp: peek_Dir)
  from pk [of l] l n have "peek (fs_root w') l = Some n" by (simp add: peek_file)
  with n have n': "lookup (fs_root w') l = Some n" by (simp add: peek_file)
  from l g have "locate w' p = Inr l" by (simp add: locate_gone)
  with n n' d' d show ?thesis by (auto simp: os_remove_Inr)
qed


subsection \<open>The loop\<close>

lemma gone_refl: "gone w w {}"
  by (simp add: gone_def)

lemma process_file_gone:
  assumes step: "process_file ex c False v src s p = Inr s'" and g: "gone w (world_of s) D"
  shows "\<exists>D'. gone w (world_of s') D' \<and> D \<subseteq> D' \<and>
           (\<forall>l \<in> D' - D. to_remove w ex c src p \<and> locate w p = Inr l) \<and>
           (\<forall>l. to_remove w ex c src p \<and> locate w p = Inr l \<and> (\<exists>w1. os_remove w p = Inr w1)
                \<longrightarrow> l \<in> D')"
proof (cases "normpath p \<in> ex")
  case True
  with step have "world_of s' = world_of s" by (auto simp: process_file_def Let_def print_def)
  with g True have "gone w (world_of s') D \<and> D \<subseteq> D \<and>
           (\<forall>l \<in> D - D. to_remove w ex c src p \<and> locate w p = Inr l) \<and>
           (\<forall>l. to_remove w ex c src p \<and> locate w p = Inr l \<and> (\<exists>w1. os_remove w p = Inr w1)
                \<longrightarrow> l \<in> D)"
    by (simp add: to_remove_def)
  then show ?thesis by blast
next
  case False
  note ex = this
  show ?thesis
  proof (cases "get_timestamp (world_of s) p src")
    case (Inl e)
    with step ex have same: "world_of s' = world_of s"
      by (auto simp: process_file_def Let_def print_def split: if_splits)
    have "l \<in> D" if "to_remove w ex c src p" "locate w p = Inr l" for l
    proof (rule ccontr)
      assume "l \<notin> D"
      from that obtain t where "get_timestamp w p src = Inr t"
        by (auto simp: to_remove_def split: sum.splits)
      from get_timestamp_gone_keep [OF g this] that \<open>l \<notin> D\<close> Inl show False by simp
    qed
    with g same have "gone w (world_of s') D \<and> D \<subseteq> D \<and>
           (\<forall>l \<in> D - D. to_remove w ex c src p \<and> locate w p = Inr l) \<and>
           (\<forall>l. to_remove w ex c src p \<and> locate w p = Inr l \<and> (\<exists>w1. os_remove w p = Inr w1)
                \<longrightarrow> l \<in> D)"
      by simp
    then show ?thesis by blast
  next
    case (Inr ts)
    from get_timestamp_gone_Inr [OF g Inr] have ts: "get_timestamp w p src = Inr ts" .
    show ?thesis
    proof (cases "ts < c")
      case False
      with step ex Inr have same: "world_of s' = world_of s"
        by (auto simp: process_file_def Let_def print_def split: if_splits)
      from False ts have "\<not> to_remove w ex c src p" by (simp add: to_remove_def)
      with g same have "gone w (world_of s') D \<and> D \<subseteq> D \<and>
           (\<forall>l \<in> D - D. to_remove w ex c src p \<and> locate w p = Inr l) \<and>
           (\<forall>l. to_remove w ex c src p \<and> locate w p = Inr l \<and> (\<exists>w1. os_remove w p = Inr w1)
                \<longrightarrow> l \<in> D)"
        by simp
      then show ?thesis by blast
    next
      case True
      with ts ex have tr: "to_remove w ex c src p" by (simp add: to_remove_def)
      have ws: "world_of ((if v then print (Check p ts c src) else id) (s\<lparr>considered := considered s + 1\<rparr>))
          = world_of s" by (simp add: print_def)
      show ?thesis
      proof (cases "os_remove (world_of s) p")
        case (Inl e)
        with step ex Inr True ws have same: "world_of s' = world_of s"
          by (auto simp: process_file_def Let_def print_def split: if_splits)
        have "l \<in> D" if "locate w p = Inr l" "os_remove w p = Inr w1" for l w1
        proof (rule ccontr)
          assume "l \<notin> D"
          from os_remove_gone_ok [OF g that(2) that(1) this] Inl show False by auto
        qed
        with g same have "gone w (world_of s') D \<and> D \<subseteq> D \<and>
           (\<forall>l \<in> D - D. to_remove w ex c src p \<and> locate w p = Inr l) \<and>
           (\<forall>l. to_remove w ex c src p \<and> locate w p = Inr l \<and> (\<exists>w1. os_remove w p = Inr w1)
                \<longrightarrow> l \<in> D)"
          by auto
        then show ?thesis by blast
      next
        case (Inr w'')
        with step ex \<open>get_timestamp (world_of s) p src = Inr ts\<close> True ws
        have new: "world_of s' = w''"
          by (auto simp: process_file_def Let_def print_def split: if_splits)
        from os_remove_gone_step [OF g Inr] obtain l where
          l: "locate w p = Inr l" "l \<notin> D" "gone w w'' (insert l D)" by blast
        with new tr have "gone w (world_of s') (insert l D) \<and> D \<subseteq> insert l D \<and>
           (\<forall>k \<in> insert l D - D. to_remove w ex c src p \<and> locate w p = Inr k) \<and>
           (\<forall>k. to_remove w ex c src p \<and> locate w p = Inr k \<and> (\<exists>w1. os_remove w p = Inr w1)
                \<longrightarrow> k \<in> insert l D)"
          by auto
        then show ?thesis by blast
      qed
    qed
  qed
qed


lemma sweep_loop_gone:
  assumes "sweep_loop (process_file ex c False v src) s ps = Inr s'" "gone w (world_of s) D"
  shows "\<exists>D'. gone w (world_of s') D' \<and> D \<subseteq> D' \<and>
           (\<forall>l \<in> D' - D. \<exists>q \<in> set ps. to_remove w ex c src q \<and> locate w q = Inr l) \<and>
           (\<forall>q \<in> set ps. \<forall>l. to_remove w ex c src q \<and> locate w q = Inr l \<and>
                (\<exists>w1. os_remove w q = Inr w1) \<longrightarrow> l \<in> D')"
  using assms
proof (induction ps arbitrary: s D)
  case Nil
  then have "gone w (world_of s') D \<and> D \<subseteq> D" by simp
  then show ?case by auto
next
  case (Cons p ps)
  from Cons.prems(1) obtain s1 where
    step: "process_file ex c False v src s p = Inr s1" and
    rest: "sweep_loop (process_file ex c False v src) s1 ps = Inr s'"
    by (auto split: sum.splits)
  from process_file_gone [OF step Cons.prems(2)] obtain D1 where
    D1: "gone w (world_of s1) D1" "D \<subseteq> D1"
      "\<forall>l \<in> D1 - D. to_remove w ex c src p \<and> locate w p = Inr l"
      "\<forall>l. to_remove w ex c src p \<and> locate w p = Inr l \<and> (\<exists>w1. os_remove w p = Inr w1)
                \<longrightarrow> l \<in> D1"
    by blast
  from Cons.IH [OF rest D1(1)] obtain D2 where
    D2: "gone w (world_of s') D2" "D1 \<subseteq> D2"
      "\<forall>l \<in> D2 - D1. \<exists>q \<in> set ps. to_remove w ex c src q \<and> locate w q = Inr l"
      "\<forall>q \<in> set ps. \<forall>l. to_remove w ex c src q \<and> locate w q = Inr l \<and>
                (\<exists>w1. os_remove w q = Inr w1) \<longrightarrow> l \<in> D2"
    by blast
  have a: "D \<subseteq> D2" using D1(2) D2(2) by blast
  have b: "\<forall>l \<in> D2 - D. \<exists>q \<in> set (p # ps). to_remove w ex c src q \<and> locate w q = Inr l"
  proof
    fix l assume "l \<in> D2 - D"
    then consider "l \<in> D1 - D" | "l \<in> D2 - D1" by blast
    then show "\<exists>q \<in> set (p # ps). to_remove w ex c src q \<and> locate w q = Inr l"
    proof cases
      case 1
      with D1(3) show ?thesis by auto
    next
      case 2
      with D2(3) show ?thesis by auto
    qed
  qed
  have c: "\<forall>q \<in> set (p # ps). \<forall>l. to_remove w ex c src q \<and> locate w q = Inr l \<and>
                (\<exists>w1. os_remove w q = Inr w1) \<longrightarrow> l \<in> D2"
    using D1(4) D2(2) D2(4) by auto
  from D2(1) a b c show ?case by blast
qed

lemma sweep_gone:
  assumes run: "remove_old_files w now directory exclude_filenames days False verbose recursive
                  include_hidden age_source = Inr s"
    and files: "iter_files w directory recursive include_hidden = Inr files"
  shows "\<exists>D. gone w (world_of s) D \<and>
           (\<forall>l \<in> D. \<exists>q \<in> set files.
               to_remove w (excluded_of directory exclude_filenames) (cutoff_of now days) age_source q
               \<and> locate w q = Inr l) \<and>
           (\<forall>q \<in> set files. \<forall>l.
               to_remove w (excluded_of directory exclude_filenames) (cutoff_of now days) age_source q
               \<and> locate w q = Inr l \<and> (\<exists>w1. os_remove w q = Inr w1) \<longrightarrow> l \<in> D)"
proof -
  let ?body = "process_file (excluded_of directory exclude_filenames) (cutoff_of now days) False
                 verbose age_source"
  from run files obtain t where
    loop: "sweep_loop ?body (start w) files = Inr t" and
    s: "s = print (Done (considered t) (removed t) (skipped_excluded t) age_source days recursive False) t"
    by (auto simp: remove_old_files_def Let_def split: sum.splits)
  have "gone w (world_of (start w)) {}" by (simp add: start_def gone_refl)
  from sweep_loop_gone [OF loop this] s show ?thesis by (simp add: print_def)
qed

lemma lexists_gone:
  assumes "gone w w' D"
  shows "lexists w' p \<longleftrightarrow> lexists w p \<and> (\<exists>l. locate w p = Inr l \<and> l \<notin> D)"
proof -
  have "lexists w' p \<longleftrightarrow> (\<exists>n'. os_stat w' p = Inr n' \<and> (\<lambda>x. ()) (node_stat (entry_info n')) = ())"
    by (auto simp: lexists_def split: sum.splits)
  also have "\<dots> \<longleftrightarrow> (\<exists>n. os_stat w p = Inr n \<and> (\<lambda>x. ()) (node_stat (entry_info n)) = ()) \<and>
         (\<exists>l. locate w p = Inr l \<and> l \<notin> D)"
    by (rule stat_field_gone [OF assms])
  also have "\<dots> \<longleftrightarrow> lexists w p \<and> (\<exists>l. locate w p = Inr l \<and> l \<notin> D)"
    by (auto simp: lexists_def split: sum.splits)
  finally show ?thesis .
qed

subsection \<open>Old files are removed, recent files are kept\<close>

text \<open>
  Claim C1, as amended. After a sweep that is not a dry run and that reaches its end:
  an enumerated file whose time stamp is strictly before the cutoff
  \<open>now - days * 86400\<close>, whose normal path is not excluded and which \<^verbatim>\<open>os.remove\<close>
  can delete no longer exists; an enumerated file that exists and whose time stamp is at
  or after the cutoff still exists, a time stamp equal to the cutoff included.
\<close>

theorem sweep_removes_old_files:
  assumes wf: "wf_node (fs_root w)"
    and run: "remove_old_files w now directory exclude_filenames days False verbose recursive
                include_hidden age_source = Inr s"
    and files: "iter_files w directory recursive include_hidden = Inr files"
    and p: "p \<in> set files"
  shows "(normpath p \<notin> excluded_of directory exclude_filenames \<and>
          get_timestamp w p age_source = Inr ts \<and> ts < cutoff_of now days \<and>
          os_remove w p = Inr w1
            \<longrightarrow> \<not> lexists (world_of s) p) \<and>
         (get_timestamp w p age_source = Inr ts \<and> cutoff_of now days \<le> ts \<and> lexists w p
            \<longrightarrow> lexists (world_of s) p)"
proof (intro conjI impI)
  let ?ex = "excluded_of directory exclude_filenames" and ?c = "cutoff_of now days"
  from sweep_gone [OF run files] obtain D where
    g: "gone w (world_of s) D" and
    only: "\<forall>l \<in> D. \<exists>q \<in> set files. to_remove w ?ex ?c age_source q \<and> locate w q = Inr l" and
    all: "\<forall>q \<in> set files. \<forall>l. to_remove w ?ex ?c age_source q \<and> locate w q = Inr l \<and>
            (\<exists>w1. os_remove w q = Inr w1) \<longrightarrow> l \<in> D"
    by blast
  {
    assume a: "normpath p \<notin> ?ex \<and> get_timestamp w p age_source = Inr ts \<and> ts < ?c \<and>
          os_remove w p = Inr w1"
    then have tr: "to_remove w ?ex ?c age_source p" by (simp add: to_remove_def)
    from a obtain l where l: "locate w p = Inr l" by (auto simp: os_remove_Inr)
    with all p tr a have "l \<in> D" by blast
    with l show "\<not> lexists (world_of s) p" by (simp add: lexists_gone [OF g])
  }
  {
    assume b: "get_timestamp w p age_source = Inr ts \<and> ?c \<le> ts \<and> lexists w p"
    then obtain l where l: "locate w p = Inr l"
      by (auto simp: lexists_def os_stat_def split: sum.splits)
    have "l \<notin> D"
    proof
      assume "l \<in> D"
      with only obtain q where q: "q \<in> set files" "to_remove w ?ex ?c age_source q"
        "locate w q = Inr l" by blast
      from iter_files_inj [OF wf files p q(1) l q(3)] have "q = p" by simp
      with q(2) b show False by (simp add: to_remove_def)
    qed
    with l b show "lexists (world_of s) p" by (simp add: lexists_gone [OF g])
  }
qed


theorem sweep_removes_old_files_witness:
  "wf_node (fs_root demo) \<and>
   iter_files demo ''/r'' False False = Inr [''/r/a.txt'', ''/r/b.txt'', ''/r/README.md''] \<and>
   (\<exists>s w1. remove_old_files demo 12160000 ''/r'' [''README.md''] 30 False False False False ''mtime''
              = Inr s \<and>
      normpath ''/r/a.txt'' \<notin> excluded_of ''/r'' [''README.md''] \<and>
      get_timestamp demo ''/r/a.txt'' ''mtime'' = Inr 6544000 \<and>
      6544000 < cutoff_of 12160000 30 \<and>
      os_remove demo ''/r/a.txt'' = Inr w1 \<and>
      \<not> lexists (world_of s) ''/r/a.txt'' \<and>
      get_timestamp demo ''/r/b.txt'' ''mtime'' = Inr 9568000 \<and>
      cutoff_of 12160000 30 = 9568000 \<and>
      lexists demo ''/r/b.txt'' \<and>
      lexists (world_of s) ''/r/b.txt'')"
proof -
  let ?files = "[''/r/a.txt'', ''/r/b.txt'', ''/r/README.md'']"
  have wf: "wf_node (fs_root demo)"
    by (simp add: example_defs valid_name_def)
  have files: "iter_files demo ''/r'' False False = Inr ?files"
    by code_simp
  have "\<exists>s. remove_old_files demo 12160000 ''/r'' [''README.md''] 30 False False False False ''mtime''
              = Inr s"
    unfolding remove_old_files_def files
    by (simp add: program_defs sweep_defs path_defs example_defs os_defs)
  then obtain s where
    run: "remove_old_files demo 12160000 ''/r'' [''README.md''] 30 False False False False ''mtime''
              = Inr s"
    by blast
  have "\<exists>w1. os_remove demo ''/r/a.txt'' = Inr w1"
    by (simp add: example_defs os_defs)
  then obtain w1 where rm: "os_remove demo ''/r/a.txt'' = Inr w1" by blast
  have a: "normpath ''/r/a.txt'' \<notin> excluded_of ''/r'' [''README.md'']"
    "get_timestamp demo ''/r/a.txt'' ''mtime'' = Inr 6544000"
    "6544000 < cutoff_of 12160000 30"
    by (simp_all add: program_defs sweep_defs path_defs example_defs os_defs)
  have b: "get_timestamp demo ''/r/b.txt'' ''mtime'' = Inr 9568000"
    "cutoff_of 12160000 30 = 9568000" "lexists demo ''/r/b.txt''"
    by (simp_all add: program_defs sweep_defs path_defs example_defs os_defs)
  have pa: "''/r/a.txt'' \<in> set ?files" and pb: "''/r/b.txt'' \<in> set ?files" by simp_all
  from sweep_removes_old_files [OF wf run files pa, of 6544000 w1] a rm
  have 1: "\<not> lexists (world_of s) ''/r/a.txt''" by simp
  from sweep_removes_old_files [OF wf run files pb, of 9568000] b
  have 2: "lexists (world_of s) ''/r/b.txt''" by simp
  from wf files run a rm 1 b 2 show ?thesis by blast
qed

text \<open>
  The claim as it is written promises the deletion of every old file that is not
  excluded. In a read-only directory \<^verbatim>\<open>os.remove\<close> raises, the loop prints the error
  and goes on, and the old file \<^verbatim>\<open>/r/a.txt\<close> is still there when the sweep ends.
\<close>

theorem failed_deletion_leaves_old_file_counterexample:
  "iter_files demo_locked ''/r'' False False = Inr [''/r/a.txt'', ''/r/b.txt'', ''/r/README.md''] \<and>
   normpath ''/r/a.txt'' \<notin> excluded_of ''/r'' [''README.md''] \<and>
   get_timestamp demo_locked ''/r/a.txt'' ''mtime'' = Inr 6544000 \<and>
   6544000 < cutoff_of 10000000 30 \<and>
   (\<exists>s. remove_old_files demo_locked 10000000 ''/r'' [''README.md''] 30 False False False False
           ''mtime'' = Inr s \<and>
        lexists (world_of s) ''/r/a.txt'')"
proof -
  have files: "iter_files demo_locked ''/r'' False False =
      Inr [''/r/a.txt'', ''/r/b.txt'', ''/r/README.md'']"
    by code_simp
  have a: "normpath ''/r/a.txt'' \<notin> excluded_of ''/r'' [''README.md'']"
    "get_timestamp demo_locked ''/r/a.txt'' ''mtime'' = Inr 6544000"
    "6544000 < cutoff_of 10000000 30"
    by (simp_all add: program_defs sweep_defs path_defs example_defs os_defs)
  have "\<exists>s. remove_old_files demo_locked 10000000 ''/r'' [''README.md''] 30 False False False False
           ''mtime'' = Inr s \<and>
        lexists (world_of s) ''/r/a.txt''"
    unfolding remove_old_files_def files
    by (simp add: program_defs sweep_defs path_defs example_defs os_defs)
  with files a show ?thesis by blast
qed

subsection \<open>Exclusions\<close>

lemma process_file_skipped:
  assumes "process_file ex c dry_run v src s p = Inr s'"
  shows "(skipped_excluded s' = skipped_excluded s + 1 \<longleftrightarrow> normpath p \<in> ex) \<and>
         skipped_excluded s' = skipped_excluded s + (if normpath p \<in> ex then 1 else 0) \<and>
         (normpath p \<in> ex \<longrightarrow> world_of s' = world_of s \<and> removed s' = removed s)"
  using assms
  by (auto simp: process_file_def Let_def print_def split: if_splits sum.splits)

lemma sweep_loop_skipped:
  assumes "sweep_loop (process_file ex c dry_run v src) s ps = Inr s'"
  shows "skipped_excluded s' = skipped_excluded s + int (length (filter (\<lambda>p. normpath p \<in> ex) ps))"
  using assms
proof (induction ps arbitrary: s)
  case Nil
  then show ?case by simp
next
  case (Cons p ps)
  from Cons.prems obtain s1 where
    step: "process_file ex c dry_run v src s p = Inr s1" and
    rest: "sweep_loop (process_file ex c dry_run v src) s1 ps = Inr s'"
    by (auto split: sum.splits)
  from process_file_skipped [OF step] Cons.IH [OF rest] show ?case by simp
qed

lemma norm_comps_foldl_join:
  assumes "directory \<noteq> []" "list_all valid_name ds"
  shows "norm_comps (foldl join directory ds) = norm_comps directory @ ds \<and>
         initial_slashes (foldl join directory ds) = initial_slashes directory"
  using assms
proof (induction ds rule: rev_induct)
  case Nil
  then show ?case by simp
next
  case (snoc d ds)
  then have "foldl join directory ds \<noteq> []" by (simp add: foldl_join_nonempty)
  with snoc show ?case by (simp add: norm_comps_join initial_slashes_join)
qed

lemma join_sep_nonempty: "cs \<noteq> [] \<Longrightarrow> hd cs \<noteq> [] \<Longrightarrow> join_sep cs \<noteq> []"
  by (induction cs rule: join_sep.induct) simp_all

lemma normpath_comps:
  assumes "x \<noteq> []" "norm_comps x \<noteq> []"
  shows "normpath x = replicate (initial_slashes x) CHR ''/'' @ join_sep (norm_comps x)"
proof -
  from assms(2) norm_comps_good [of x] have "hd (norm_comps x) \<noteq> []"
    by (cases "norm_comps x") auto
  with assms(2) have "join_sep (norm_comps x) \<noteq> []" by (rule join_sep_nonempty)
  with assms(1) show ?thesis by (simp add: normpath_def Let_def)
qed

lemma normpath_nested:
  assumes d: "directory \<noteq> []" and n: "valid_name name"
    and ds: "list_all valid_name (d # ds)" and f: "valid_name fname"
  shows "normpath (join (foldl join directory (d # ds)) fname) \<noteq> normpath (join directory name)"
proof
  let ?p = "join (foldl join directory (d # ds)) fname" and ?q = "join directory name"
  assume eq: "normpath ?p = normpath ?q"
  from d ds have ne: "foldl join directory (d # ds) \<noteq> []" by (rule foldl_join_nonempty)
  from norm_comps_foldl_join [OF d ds] ne f
  have cp: "norm_comps ?p = norm_comps directory @ (d # ds) @ [fname]"
    and kp: "initial_slashes ?p = initial_slashes directory"
    by (simp_all add: norm_comps_join initial_slashes_join)
  from d n have cq: "norm_comps ?q = norm_comps directory @ [name]"
    and kq: "initial_slashes ?q = initial_slashes directory"
    by (simp_all add: norm_comps_join initial_slashes_join)
  from ne f have "?p \<noteq> []" by (rule join_nonempty)
  with cp have np: "normpath ?p = replicate (initial_slashes ?p) CHR ''/'' @ join_sep (norm_comps ?p)"
    by (intro normpath_comps) simp_all
  from d n have "?q \<noteq> []" by (rule join_nonempty)
  with cq have nq: "normpath ?q = replicate (initial_slashes ?q) CHR ''/'' @ join_sep (norm_comps ?q)"
    by (intro normpath_comps) simp_all
  from eq np nq kp kq have "join_sep (norm_comps ?p) = join_sep (norm_comps ?q)" by simp
  then have "split_sep (join_sep (norm_comps ?p)) = split_sep (join_sep (norm_comps ?q))" by simp
  moreover have "split_sep (join_sep (norm_comps ?p)) = norm_comps ?p"
    using cp norm_comps_good [of ?p] by (intro split_join_sep) auto
  moreover have "split_sep (join_sep (norm_comps ?q)) = norm_comps ?q"
    using cq norm_comps_good [of ?q] by (intro split_join_sep) auto
  ultimately have "norm_comps ?p = norm_comps ?q" by simp
  with cp cq show False by simp
qed

lemma sweep_keeps_excluded:
  assumes wf: "wf_node (fs_root w)"
    and run: "remove_old_files w now directory exclude_filenames days dry_run verbose recursive
                include_hidden age_source = Inr s"
    and files: "iter_files w directory recursive include_hidden = Inr files"
    and p: "p \<in> set files" "normpath p \<in> excluded_of directory exclude_filenames" "lexists w p"
  shows "lexists (world_of s) p"
proof (cases dry_run)
  case True
  with run have "world_of s = w" by (auto dest: dry_run_sweep)
  with p show ?thesis by simp
next
  case False
  let ?ex = "excluded_of directory exclude_filenames" and ?c = "cutoff_of now days"
  from run False have run': "remove_old_files w now directory exclude_filenames days False verbose
      recursive include_hidden age_source = Inr s" by simp
  from sweep_gone [OF run' files] obtain D where
    g: "gone w (world_of s) D" and
    only: "\<forall>l \<in> D. \<exists>q \<in> set files. to_remove w ?ex ?c age_source q \<and> locate w q = Inr l"
    by blast
  from p(3) obtain l where l: "locate w p = Inr l"
    by (auto simp: lexists_def os_stat_def split: sum.splits)
  have "l \<notin> D"
  proof
    assume "l \<in> D"
    with only obtain q where q: "q \<in> set files" "to_remove w ?ex ?c age_source q"
      "locate w q = Inr l" by blast
    from iter_files_inj [OF wf files p(1) q(1) l q(3)] have "q = p" by simp
    with q(2) p(2) show False by (simp add: to_remove_def)
  qed
  with l p(3) show ?thesis by (simp add: lexists_gone [OF g])
qed

lemma sweep_deletes:
  assumes run: "remove_old_files w now directory exclude_filenames days False verbose recursive
                include_hidden age_source = Inr s"
    and files: "iter_files w directory recursive include_hidden = Inr files"
    and p: "p \<in> set files"
      "to_remove w (excluded_of directory exclude_filenames) (cutoff_of now days) age_source p"
      "os_remove w p = Inr w1"
  shows "\<not> lexists (world_of s) p"
proof -
  let ?ex = "excluded_of directory exclude_filenames" and ?c = "cutoff_of now days"
  from sweep_gone [OF run files] obtain D where
    g: "gone w (world_of s) D" and
    all: "\<forall>q \<in> set files. \<forall>l. to_remove w ?ex ?c age_source q \<and> locate w q = Inr l \<and>
            (\<exists>w1. os_remove w q = Inr w1) \<longrightarrow> l \<in> D"
    by blast
  from p(3) obtain l where l: "locate w p = Inr l" by (auto simp: os_remove_Inr)
  with all p have "l \<in> D" by blast
  with l show ?thesis by (simp add: lexists_gone [OF g])
qed


lemma sweep_skipped:
  assumes run: "remove_old_files w now directory exclude_filenames days dry_run verbose recursive
                include_hidden age_source = Inr s"
    and files: "iter_files w directory recursive include_hidden = Inr files"
  shows "skipped_excluded s =
         int (length (filter (\<lambda>q. normpath q \<in> excluded_of directory exclude_filenames) files))"
proof -
  let ?body = "process_file (excluded_of directory exclude_filenames) (cutoff_of now days) dry_run
                 verbose age_source"
  from run files obtain t where
    loop: "sweep_loop ?body (start w) files = Inr t" and
    s: "s = print (Done (considered t) (removed t) (skipped_excluded t) age_source days recursive dry_run) t"
    by (auto simp: remove_old_files_def Let_def split: sum.splits)
  from sweep_loop_skipped [OF loop] s show ?thesis by (simp add: start_def print_def)
qed

text \<open>
  Claim C3. A candidate is in the excluded set exactly when its normal path is the
  normal path of the root directory joined with one of the excluded names. One round
  of the loop adds one to \<open>skipped_excluded\<close> exactly for such a candidate, and then leaves
  the file system and \<open>removed\<close> alone; at the end of a sweep \<open>skipped_excluded\<close> counts
  the excluded candidates, and an excluded candidate that existed still exists, whatever
  its age. When the excluded names are plain file names, a candidate in a subdirectory
  is not excluded, also when its own name is one of them; in a sweep that is not a dry
  run it is deleted when it is old and \<^verbatim>\<open>os.remove\<close> lets it go.
\<close>

theorem exclusion_is_root_relative:
  assumes wf: "wf_node (fs_root w)"
    and run: "remove_old_files w now directory exclude_filenames days dry_run verbose recursive
                include_hidden age_source = Inr s"
    and files: "iter_files w directory recursive include_hidden = Inr files"
  shows
    "(normpath p \<in> excluded_of directory exclude_filenames \<longleftrightarrow>
        (\<exists>name \<in> set exclude_filenames. normpath p = normpath (join directory name))) \<and>
     (process_file (excluded_of directory exclude_filenames) c dr v src s0 p = Inr s1 \<longrightarrow>
        (skipped_excluded s1 = skipped_excluded s0 + 1 \<longleftrightarrow>
           normpath p \<in> excluded_of directory exclude_filenames) \<and>
        (normpath p \<in> excluded_of directory exclude_filenames \<longrightarrow>
           world_of s1 = world_of s0 \<and> removed s1 = removed s0)) \<and>
     skipped_excluded s =
        int (length (filter (\<lambda>q. normpath q \<in> excluded_of directory exclude_filenames) files)) \<and>
     (p \<in> set files \<and> normpath p \<in> excluded_of directory exclude_filenames \<and> lexists w p \<longrightarrow>
        lexists (world_of s) p) \<and>
     (p \<in> set files \<and> p = join (foldl join directory (d # ds)) fname \<and>
      list_all valid_name (d # ds) \<and> valid_name fname \<and> list_all valid_name exclude_filenames \<longrightarrow>
        normpath p \<notin> excluded_of directory exclude_filenames \<and>
        (\<not> dry_run \<and> get_timestamp w p age_source = Inr ts \<and> ts < cutoff_of now days \<and>
         os_remove w p = Inr wr \<longrightarrow> \<not> lexists (world_of s) p))"
proof (intro conjI impI)
  let ?ex = "excluded_of directory exclude_filenames"
  show "normpath p \<in> ?ex \<longleftrightarrow>
        (\<exists>name \<in> set exclude_filenames. normpath p = normpath (join directory name))"
    by (auto simp: excluded_of_def)
  show "skipped_excluded s = int (length (filter (\<lambda>q. normpath q \<in> ?ex) files))"
    using run files by (rule sweep_skipped)
  {
    assume "process_file ?ex c dr v src s0 p = Inr s1"
    note step = process_file_skipped [OF this]
    from step show "skipped_excluded s1 = skipped_excluded s0 + 1 \<longleftrightarrow> normpath p \<in> ?ex" by blast
    assume "normpath p \<in> ?ex"
    with step show "world_of s1 = world_of s0" "removed s1 = removed s0" by blast+
  }
  {
    assume "p \<in> set files \<and> normpath p \<in> ?ex \<and> lexists w p"
    then show "lexists (world_of s) p"
      using sweep_keeps_excluded [OF wf run files] by blast
  }
  {
    assume a: "p \<in> set files \<and> p = join (foldl join directory (d # ds)) fname \<and>
      list_all valid_name (d # ds) \<and> valid_name fname \<and> list_all valid_name exclude_filenames"
    from iter_files_shape [OF wf files] a have dn: "directory \<noteq> []" by blast
    show ne: "normpath p \<notin> ?ex"
    proof
      assume "normpath p \<in> ?ex"
      then obtain name where name: "name \<in> set exclude_filenames"
        "normpath p = normpath (join directory name)"
        by (auto simp: excluded_of_def)
      with a have "valid_name name" by (simp add: list_all_iff)
      from normpath_nested [OF dn this, of d ds fname] a name(2) show False by simp
    qed
    assume b: "\<not> dry_run \<and> get_timestamp w p age_source = Inr ts \<and> ts < cutoff_of now days \<and>
         os_remove w p = Inr wr"
    with ne have tr: "to_remove w ?ex (cutoff_of now days) age_source p"
      by (simp add: to_remove_def)
    from run b have "remove_old_files w now directory exclude_filenames days False verbose
        recursive include_hidden age_source = Inr s" by simp
    from sweep_deletes [OF this files _ tr] a b show "\<not> lexists (world_of s) p" by blast
  }
qed

theorem exclusion_is_root_relative_witness:
  "wf_node (fs_root demo) \<and>
   iter_files demo ''/r'' True False =
     Inr [''/r/a.txt'', ''/r/b.txt'', ''/r/README.md'', ''/r/sub/README.md'', ''/r/sub/old2.txt''] \<and>
   (\<exists>s w1. remove_old_files demo 10000000 ''/r'' [''README.md''] 30 False False True False ''mtime''
              = Inr s \<and>
      skipped_excluded s = 1 \<and>
      normpath ''/r/README.md'' \<in> excluded_of ''/r'' [''README.md''] \<and>
      lexists demo ''/r/README.md'' \<and>
      lexists (world_of s) ''/r/README.md'' \<and>
      ''/r/sub/README.md'' = join (foldl join ''/r'' [''sub'']) ''README.md'' \<and>
      list_all valid_name [''sub''] \<and> valid_name ''README.md'' \<and> list_all valid_name [''README.md''] \<and>
      normpath ''/r/sub/README.md'' \<notin> excluded_of ''/r'' [''README.md''] \<and>
      get_timestamp demo ''/r/sub/README.md'' ''mtime'' = Inr 6544000 \<and>
      6544000 < cutoff_of 10000000 30 \<and>
      os_remove demo ''/r/sub/README.md'' = Inr w1 \<and>
      \<not> lexists (world_of s) ''/r/sub/README.md'')"
proof -
  let ?files = "[''/r/a.txt'', ''/r/b.txt'', ''/r/README.md'', ''/r/sub/README.md'', ''/r/sub/old2.txt'']"
  have wf: "wf_node (fs_root demo)"
    by (simp add: example_defs valid_name_def)
  have files: "iter_files demo ''/r'' True False = Inr ?files"
    by code_simp
  have "\<exists>s. remove_old_files demo 10000000 ''/r'' [''README.md''] 30 False False True False ''mtime''
              = Inr s"
    unfolding remove_old_files_def files
    by (simp add: program_defs sweep_defs path_defs example_defs os_defs)
  then obtain s where
    run: "remove_old_files demo 10000000 ''/r'' [''README.md''] 30 False False True False ''mtime''
              = Inr s"
    by blast
  have "\<exists>w1. os_remove demo ''/r/sub/README.md'' = Inr w1"
    by (simp add: example_defs os_defs)
  then obtain w1 where rm: "os_remove demo ''/r/sub/README.md'' = Inr w1" by blast
  have top: "normpath ''/r/README.md'' \<in> excluded_of ''/r'' [''README.md'']"
    "lexists demo ''/r/README.md''"
    by (simp_all add: sweep_defs path_defs example_defs os_defs)
  have nested: "''/r/sub/README.md'' = join (foldl join ''/r'' [''sub'']) ''README.md''"
    "list_all valid_name [''sub'']" "valid_name ''README.md''" "list_all valid_name [''README.md'']"
    by (simp_all add: valid_name_def os_defs)
  have old: "get_timestamp demo ''/r/sub/README.md'' ''mtime'' = Inr 6544000"
    "6544000 < cutoff_of 10000000 30"
    by (simp_all add: program_defs sweep_defs example_defs os_defs)
  have count: "length (filter (\<lambda>q. normpath q \<in> excluded_of ''/r'' [''README.md'']) ?files) = 1"
    by (simp add: sweep_defs path_defs os_defs)
  have mem: "''/r/README.md'' \<in> set ?files" "''/r/sub/README.md'' \<in> set ?files" by simp_all
  note t = exclusion_is_root_relative [OF wf run files]
  from t [THEN conjunct2, THEN conjunct2, THEN conjunct1] count
  have 1: "skipped_excluded s = 1" by simp
  from mem(1) top have "''/r/README.md'' \<in> set ?files \<and>
      normpath ''/r/README.md'' \<in> excluded_of ''/r'' [''README.md''] \<and> lexists demo ''/r/README.md''"
    by blast
  from t [THEN conjunct2, THEN conjunct2, THEN conjunct2, THEN conjunct1, rule_format, OF this]
  have 2: "lexists (world_of s) ''/r/README.md''" .
  from mem(2) nested have "''/r/sub/README.md'' \<in> set ?files \<and>
      ''/r/sub/README.md'' = join (foldl join ''/r'' (''sub'' # [])) ''README.md'' \<and>
      list_all valid_name (''sub'' # []) \<and> valid_name ''README.md'' \<and>
      list_all valid_name [''README.md'']"
    by blast
  note n = t [THEN conjunct2, THEN conjunct2, THEN conjunct2, THEN conjunct2, rule_format, OF this]
  from n have 3: "normpath ''/r/sub/README.md'' \<notin> excluded_of ''/r'' [''README.md'']"
    by (rule conjunct1)
  from old rm have "\<not> False \<and> get_timestamp demo ''/r/sub/README.md'' ''mtime'' = Inr 6544000 \<and>
      6544000 < cutoff_of 10000000 30 \<and> os_remove demo ''/r/sub/README.md'' = Inr w1"
    by blast
  from n [THEN conjunct2, rule_format, OF this]
  have 4: "\<not> lexists (world_of s) ''/r/sub/README.md''" .
  from wf files run 1 top 2 nested 3 4 old rm show ?thesis by blast
qed

subsection \<open>Sweeps that are not recursive\<close>

lemma sweep_keeps_other_locations:
  assumes wf: "wf_node (fs_root w)"
    and run: "remove_old_files w now directory exclude_filenames days dry_run verbose False
                include_hidden age_source = Inr s"
    and l0: "locate w directory = Inr l0"
    and q: "locate w q = Inr l" "\<forall>name. l \<noteq> l0 @ [name]" "lexists w q"
  shows "lexists (world_of s) q"
proof (cases dry_run)
  case True
  with run have "world_of s = w" by (auto dest: dry_run_sweep)
  with q show ?thesis by simp
next
  case False
  from run obtain files where files: "iter_files w directory False include_hidden = Inr files"
    by (auto simp: remove_old_files_def Let_def split: sum.splits)
  from run False have run': "remove_old_files w now directory exclude_filenames days False verbose
      False include_hidden age_source = Inr s" by simp
  from sweep_gone [OF run' files] obtain D where
    g: "gone w (world_of s) D" and
    only: "\<forall>l \<in> D. \<exists>p \<in> set files.
        to_remove w (excluded_of directory exclude_filenames) (cutoff_of now days) age_source p \<and>
        locate w p = Inr l"
    by blast
  have "l \<notin> D"
  proof
    assume "l \<in> D"
    with only obtain p where p: "p \<in> set files" "locate w p = Inr l" by blast
    from iter_files_locate [OF wf files p] l0 obtain name where "l = l0 @ [name]" by auto
    with q(2) show False by simp
  qed
  with q show ?thesis by (simp add: lexists_gone [OF g])
qed

text \<open>
  Claim C5. Without \<^verbatim>\<open>recursive\<close>, every path the generator yields is the root
  directory joined with one of the names \<^verbatim>\<open>os.listdir\<close> gave, \<^verbatim>\<open>os.path.isfile\<close> holds
  of it, and in the tree it is a regular file one level below the root directory. A path
  that lies deeper, in a subdirectory of the root directory, is not yielded, and if it
  exists it still exists after the sweep, whatever its age.
\<close>

theorem non_recursive_yields_direct_children:
  assumes "wf_node (fs_root w)"
    and "iter_files w directory False include_hidden = Inr files"
  shows "(p \<in> set files \<longrightarrow>
           (\<exists>names name l0 st.
              listdir w directory = Inr names \<and> name \<in> set names \<and> p = join directory name \<and>
              isfile w p \<and>
              locate w directory = Inr l0 \<and> locate w p = Inr (l0 @ [name]) \<and>
              lookup (fs_root w) (l0 @ [name]) = Some (File st))) \<and>
         (remove_old_files w now directory exclude_filenames days dry_run verbose False
              include_hidden age_source = Inr s \<and>
          locate w directory = Inr l0 \<and> locate w q = Inr (l0 @ d # ds @ [name]) \<and> lexists w q \<longrightarrow>
            q \<notin> set files \<and> lexists (world_of s) q)"
proof (intro conjI impI)
  assume p: "p \<in> set files"
  note sh = iter_files_shape [OF assms p]
  from sh obtain names name where
    n: "p = join directory name" "isfile w p" "listdir w directory = Inr names" "name \<in> set names"
      "valid_name name"
    by auto
  from n(2) obtain l st where l: "locate w p = Inr l" "lookup (fs_root w) l = Some (File st)"
    by (auto simp: isfile_def os_stat_def split: sum.splits option.splits node.splits)
  from iter_files_locate [OF assms p l(1)] obtain l0 name' where
    l0: "locate w directory = Inr l0" "l = l0 @ [name']" "p = join directory name'"
      "valid_name name'"
    by auto
  from sh have d: "directory \<noteq> []" by simp
  from n(1) l0(3) have "split_sep (join directory name) = split_sep (join directory name')" by simp
  with d n(5) l0(4) have "name' = name" by (simp add: split_sep_join split: if_splits)
  with n l l0 show "\<exists>names name l0 st.
              listdir w directory = Inr names \<and> name \<in> set names \<and> p = join directory name \<and>
              isfile w p \<and>
              locate w directory = Inr l0 \<and> locate w p = Inr (l0 @ [name]) \<and>
              lookup (fs_root w) (l0 @ [name]) = Some (File st)" by blast
next
  assume a: "remove_old_files w now directory exclude_filenames days dry_run verbose False
              include_hidden age_source = Inr s \<and>
          locate w directory = Inr l0 \<and> locate w q = Inr (l0 @ d # ds @ [name]) \<and> lexists w q"
  show "q \<notin> set files"
  proof
    assume "q \<in> set files"
    from iter_files_locate [OF assms this, of "l0 @ d # ds @ [name]"] a
    obtain name' where "l0 @ d # ds @ [name] = l0 @ [name']" by auto
    then show False by simp
  qed
  have "\<forall>name'. l0 @ d # ds @ [name] \<noteq> l0 @ [name']" by simp
  with a sweep_keeps_other_locations [OF assms(1), of now directory exclude_filenames days dry_run
      verbose include_hidden age_source s l0 q "l0 @ d # ds @ [name]"]
  show "lexists (world_of s) q" by blast
qed

theorem non_recursive_yields_direct_children_witness:
  "wf_node (fs_root demo) \<and>
   iter_files demo ''/r'' False False = Inr [''/r/a.txt'', ''/r/b.txt'', ''/r/README.md''] \<and>
   ''/r/b.txt'' \<in> set [''/r/a.txt'', ''/r/b.txt'', ''/r/README.md''] \<and>
   (\<exists>names name l0 st.
           listdir demo ''/r'' = Inr names \<and> name \<in> set names \<and> ''/r/b.txt'' = join ''/r'' name \<and>
           isfile demo ''/r/b.txt'' \<and>
           locate demo ''/r'' = Inr l0 \<and> locate demo ''/r/b.txt'' = Inr (l0 @ [name]) \<and>
           lookup (fs_root demo) (l0 @ [name]) = Some (File st)) \<and>
   locate demo ''/r'' = Inr [''r''] \<and>
   locate demo ''/r/sub/old2.txt'' = Inr ([''r''] @ ''sub'' # [] @ [''old2.txt'']) \<and>
   lexists demo ''/r/sub/old2.txt'' \<and>
   get_timestamp demo ''/r/sub/old2.txt'' ''mtime'' = Inr 6544000 \<and>
   6544000 < cutoff_of 10000000 30 \<and>
   (\<exists>s. remove_old_files demo 10000000 ''/r'' [''README.md''] 30 False False False False ''mtime''
            = Inr s \<and>
        lexists (world_of s) ''/r/sub/old2.txt'')"
proof -
  let ?files = "[''/r/a.txt'', ''/r/b.txt'', ''/r/README.md'']"
  have wf: "wf_node (fs_root demo)"
    by (simp add: example_defs valid_name_def)
  have files: "iter_files demo ''/r'' False False = Inr ?files"
    by code_simp
  have p: "''/r/b.txt'' \<in> set ?files" by simp
  note t = non_recursive_yields_direct_children [OF wf files]
  from t [THEN conjunct1, rule_format, OF p]
  have 1: "\<exists>names name l0 st.
           listdir demo ''/r'' = Inr names \<and> name \<in> set names \<and> ''/r/b.txt'' = join ''/r'' name \<and>
           isfile demo ''/r/b.txt'' \<and>
           locate demo ''/r'' = Inr l0 \<and> locate demo ''/r/b.txt'' = Inr (l0 @ [name]) \<and>
           lookup (fs_root demo) (l0 @ [name]) = Some (File st)" .
  have loc: "locate demo ''/r'' = Inr [''r'']"
    "locate demo ''/r/sub/old2.txt'' = Inr ([''r''] @ ''sub'' # [] @ [''old2.txt''])"
    "lexists demo ''/r/sub/old2.txt''"
    by (simp_all add: example_defs os_defs)
  have old: "get_timestamp demo ''/r/sub/old2.txt'' ''mtime'' = Inr 6544000"
    "6544000 < cutoff_of 10000000 30"
    by (simp_all add: program_defs sweep_defs example_defs os_defs)
  have "\<exists>s. remove_old_files demo 10000000 ''/r'' [''README.md''] 30 False False False False ''mtime''
            = Inr s"
    unfolding remove_old_files_def files
    by (simp add: program_defs sweep_defs path_defs example_defs os_defs)
  then obtain s where
    run: "remove_old_files demo 10000000 ''/r'' [''README.md''] 30 False False False False ''mtime''
            = Inr s"
    by blast
  from run loc have "remove_old_files demo 10000000 ''/r'' [''README.md''] 30 False False False
      False ''mtime'' = Inr s \<and>
      locate demo ''/r'' = Inr [''r''] \<and>
      locate demo ''/r/sub/old2.txt'' = Inr ([''r''] @ ''sub'' # [] @ [''old2.txt'']) \<and>
      lexists demo ''/r/sub/old2.txt''"
    by blast
  from t [THEN conjunct2, rule_format, OF this]
  have 2: "lexists (world_of s) ''/r/sub/old2.txt''" by (rule conjunct2)
  from wf files p 1 loc old run 2 show ?thesis by blast
qed

end
